theory Spec2Isabelle
  imports Complex_Main
begin

section \<open>ABSA utilities: dependency heads as binary matrices\<close>

text \<open>
  Source: \<^verbatim>\<open>nlp_architect/models/libert/absa_utils.py\<close>.
  Python integers are unbounded, so head indices and matrix entries are \<open>int\<close>;
  positions produced by \<^verbatim>\<open>range\<close> are \<open>nat\<close> and compared through \<open>int\<close>.
\<close>

datatype pyerror = IndexError | KeyError | ValueError | AssertionError | NameError

text \<open>
  \<^verbatim>\<open>res.append([1 if i == pred else 0 for i in range(len(preds) + 1)])\<close>
  for every \<^verbatim>\<open>pred\<close> of \<^verbatim>\<open>preds\<close>.
\<close>

definition binarize :: "int list \<Rightarrow> int list list" where
  "binarize preds =
     map (\<lambda>pred. map (\<lambda>i. if int i = pred then 1 else 0) [0..<length preds + 1]) preds"

text \<open>
  \<^verbatim>\<open>vec = [1 if i in head else 0 for i in range(len(heads) + 1)]\<close>, replaced by
  \<^verbatim>\<open>[1] * (len(heads) + 1)\<close> when \<^verbatim>\<open>not head\<close>.
\<close>

definition binarize_multi_hot :: "int list list \<Rightarrow> int list list" where
  "binarize_multi_hot heads =
     map (\<lambda>head.
            let vec = map (\<lambda>i. if int i \<in> set head then 1 else 0) [0..<length heads + 1]
            in if head = [] then replicate (length heads + 1) 1 else vec)
         heads"

subsection \<open>numpy arrays\<close>

text \<open>
  \<^verbatim>\<open>np.array(rows)\<close> of a list of integer lists is a two-dimensional array with
  \<^verbatim>\<open>shape == (len(rows), len(rows[0]))\<close> when \<^verbatim>\<open>rows\<close> is not empty and all rows have
  one length. Otherwise no second dimension exists: depending on numpy's version the call
  gives a one-dimensional array (of list objects, or empty) or raises; \<open>Array1\<close> stands for
  that outcome, and every use of a second dimension on it raises.
\<close>

datatype ndarray = Array2 nat nat "int list list" | Array1 "int list list"

definition np_array :: "int list list \<Rightarrow> ndarray" where
  "np_array rows =
     (if rows \<noteq> [] \<and> (\<forall>r \<in> set rows. length r = length (hd rows))
      then Array2 (length rows) (length (hd rows)) rows
      else Array1 rows)"

text \<open>\<^verbatim>\<open>np.zeros((r, c), float)\<close>; the entries 0 and 1 are exact as floats and stay \<open>int\<close> here.\<close>

definition np_zeros :: "nat \<Rightarrow> nat \<Rightarrow> ndarray" where
  "np_zeros r c = Array2 r c (replicate r (replicate c 0))"

text \<open>\<^verbatim>\<open>a.shape[0]\<close> and \<^verbatim>\<open>a.shape[1]\<close>.\<close>

fun shape0 :: "ndarray \<Rightarrow> nat" where
  "shape0 (Array2 r c d) = r"
| "shape0 (Array1 d) = length d"

fun shape1 :: "ndarray \<Rightarrow> pyerror + nat" where
  "shape1 (Array2 r c d) = Inr c"
| "shape1 (Array1 d) = Inl IndexError"

text \<open>\<^verbatim>\<open>a[:r, :c]\<close>: the slices are clipped to the array.\<close>

fun slice_to :: "nat \<Rightarrow> nat \<Rightarrow> ndarray \<Rightarrow> pyerror + ndarray" where
  "slice_to r c (Array2 n m d) = Inr (Array2 (min r n) (min c m) (map (take c) (take r d)))"
| "slice_to r c (Array1 d) = Inl IndexError"

text \<open>
  \<^verbatim>\<open>target[:r, :c] = src\<close>: the region is clipped to the target, and the source is copied
  into it entry by entry when the shapes agree. numpy would broadcast some other shapes;
  \<open>pad_heads\<close> never gets there, and the model raises for every mismatch.
\<close>

fun assign_slice :: "nat \<Rightarrow> nat \<Rightarrow> ndarray \<Rightarrow> ndarray \<Rightarrow> pyerror + ndarray" where
  "assign_slice r c (Array2 sr sc s) (Array2 n m t) =
     (if sr = min r n \<and> sc = min c m
      then Inr (Array2 n m (map (\<lambda>(srow, trow). srow @ drop sc trow) (zip s (take sr t)) @ drop sr t))
      else Inl ValueError)"
| "assign_slice r c src target = Inl ValueError"

text \<open>
  \<^verbatim>\<open>
  def pad_heads(a):
      target = np.zeros((64, 64), float)
      target[:a.shape[0], :a.shape[1]] = a[:64, :64]
      return target
  \<close>
  The right-hand side is evaluated first, then the subscripts of the target.
\<close>

definition pad_heads :: "ndarray \<Rightarrow> pyerror + ndarray" where
  "pad_heads a =
     (let target = np_zeros 64 64 in
      case slice_to 64 64 a of
        Inl e \<Rightarrow> Inl e
      | Inr src \<Rightarrow>
          (case shape1 a of
             Inl e \<Rightarrow> Inl e
           | Inr c \<Rightarrow> assign_slice (shape0 a) c src target))"

text \<open>An array is well formed when its data has the shape it claims.\<close>

fun array_ok :: "ndarray \<Rightarrow> bool" where
  "array_ok (Array2 r c d) = (length d = r \<and> (\<forall>row \<in> set d. length row = c))"
| "array_ok (Array1 d) = True"

subsection \<open>Lists as objects: the argument \<^verbatim>\<open>heads\<close> of \<^verbatim>\<open>apply_heads_to_subtokens\<close>\<close>

text \<open>
  \<^verbatim>\<open>apply_heads_to_subtokens\<close> works by \<^verbatim>\<open>list.insert\<close> on the list it is given and on
  the rows of that list, so the lists are objects here. A row object lives in \<open>rows\<close> at
  its address (its index); \<open>heads\<close> is the list object the caller passes, holding the
  addresses of its rows in order; \<open>sub_tokens\<close> is the second argument, which the function
  only reads. It is kept apart from the row objects: the model is of the calls in which
  \<open>sub_tokens\<close> shares no list object with \<open>heads\<close> (one list passed as both arguments
  is outside it). A new list gets the next free address.
\<close>

type_synonym addr = nat

record pystate =
  rows :: "int list list"
  heads :: "addr list"
  sub_tokens :: "string list list"

definition alloc_row :: "int list \<Rightarrow> pystate \<Rightarrow> addr \<times> pystate" where
  "alloc_row r s = (length (rows s), s\<lparr>rows := rows s @ [r]\<rparr>)"

text \<open>\<^verbatim>\<open>xs.insert(i, x)\<close> for \<open>i \<ge> 0\<close>: past the end it appends.\<close>

definition list_insert :: "nat \<Rightarrow> 'a \<Rightarrow> 'a list \<Rightarrow> 'a list" where
  "list_insert i x xs = take i xs @ x # drop i xs"

text \<open>
  The inner loop of the first phase, \<open>k\<close> rounds of
  \<^verbatim>\<open>
  if zero_sub_tokens:
      sub_token_row = [0 for _ in heads[i]]
  else:
      sub_token_row = heads[i].copy()
  heads.insert(i + 1, sub_token_row)
  \<close>
  where \<^verbatim>\<open>heads[i]\<close> raises \<^verbatim>\<open>IndexError\<close> past the end. Both branches build a new list.
  An exception comes with the state of the objects at the moment it is raised: the
  insertions made before it stay.
\<close>

fun insert_sub_rows :: "bool \<Rightarrow> nat \<Rightarrow> nat \<Rightarrow> pystate \<Rightarrow> pyerror \<times> pystate + pystate" where
  "insert_sub_rows zero_sub_tokens i 0 s = Inr s"
| "insert_sub_rows zero_sub_tokens i (Suc k) s =
     (if i < length (heads s) then
        let src = rows s ! (heads s ! i);
            sub_token_row = (if zero_sub_tokens then map (\<lambda>_. 0) src else src);
            (a, s1) = alloc_row sub_token_row s
        in insert_sub_rows zero_sub_tokens i k (s1\<lparr>heads := list_insert (i + 1) a (heads s1)\<rparr>)
      else Inl (IndexError, s))"

text \<open>
  \<^verbatim>\<open>for i in range(len(sub_tokens) - 1, -1, -1): for _ in range(1, len(sub_tokens[i])): ...\<close>
  The first argument counts the indices still to visit: \<open>Suc i\<close> visits \<open>i\<close> next.
  \<^verbatim>\<open>range(1, n)\<close> has \<open>n - 1\<close> elements, none when \<open>n = 0\<close>.
\<close>

fun expand_rows :: "bool \<Rightarrow> nat \<Rightarrow> pystate \<Rightarrow> pyerror \<times> pystate + pystate" where
  "expand_rows zero_sub_tokens 0 s = Inr s"
| "expand_rows zero_sub_tokens (Suc i) s =
     (case insert_sub_rows zero_sub_tokens i (length (sub_tokens s ! i) - 1) s of
        Inl e \<Rightarrow> Inl e
      | Inr s' \<Rightarrow> expand_rows zero_sub_tokens i s')"

text \<open>
  The loops on one row of the second phase:
  \<^verbatim>\<open>
  for i in range(len(sub_tokens) - 1, -1, -1):
      for _ in range(1, len(sub_tokens[i])):
          row.insert(i + 2, 0)
  \<close>
\<close>

fun insert_zero_cols :: "string list list \<Rightarrow> nat \<Rightarrow> int list \<Rightarrow> int list" where
  "insert_zero_cols st 0 row = row"
| "insert_zero_cols st (Suc i) row =
     insert_zero_cols st i ((list_insert (i + 2) 0 ^^ (length (st ! i) - 1)) row)"

text \<open>
  \<^verbatim>\<open>for row in heads:\<close> visits the addresses in \<open>heads\<close> in order and changes the row
  object at each; an object that occurs twice is changed twice.
\<close>

definition expand_cols :: "pystate \<Rightarrow> pystate" where
  "expand_cols s =
     s\<lparr>rows := fold (\<lambda>a rs. rs[a := insert_zero_cols (sub_tokens s) (length (sub_tokens s)) (rs ! a)])
                     (heads s) (rows s)\<rparr>"

text \<open>\<^verbatim>\<open>heads.insert(0, [0] * (len(heads) + 1))\<close>\<close>

definition insert_cls_row :: "pystate \<Rightarrow> pystate" where
  "insert_cls_row s =
     (let (a, s1) = alloc_row (replicate (length (heads s) + 1) 0) s
      in s1\<lparr>heads := list_insert 0 a (heads s1)\<rparr>)"

text \<open>The rows of the list \<open>heads\<close>, as values.\<close>

definition heads_value :: "pystate \<Rightarrow> int list list" where
  "heads_value s = map (\<lambda>a. rows s ! a) (heads s)"

text \<open>
  \<^verbatim>\<open>
  def apply_heads_to_subtokens(heads, sub_tokens, zero_sub_tokens=False):
      <first phase>
      for row in heads:
          <second phase>
      heads.insert(0, [0] * (len(heads) + 1))
      return np.array(heads)
  \<close>
  The result is the state the call leaves behind, with the array it returns or the
  exception it raises.
\<close>

definition apply_heads_to_subtokens ::
  "bool \<Rightarrow> pystate \<Rightarrow> pyerror \<times> pystate + pystate \<times> ndarray" where
  "apply_heads_to_subtokens zero_sub_tokens s =
     (case expand_rows zero_sub_tokens (length (sub_tokens s)) s of
        Inl e \<Rightarrow> Inl e
      | Inr s1 \<Rightarrow>
          let s2 = expand_cols s1;
              s3 = insert_cls_row s2
          in Inr (s3, np_array (heads_value s3)))"

text \<open>
  A state is well formed when every address in \<open>heads\<close> is allocated; the rows are
  unaliased when no address occurs twice in \<open>heads\<close> (as in a list that
  \<open>binarize_multi_hot\<close> has just built).
\<close>

definition heap_ok :: "pystate \<Rightarrow> bool" where
  "heap_ok s = (\<forall>a \<in> set (heads s). a < length (rows s))"

definition unaliased :: "pystate \<Rightarrow> bool" where
  "unaliased s = distinct (heads s)"

text \<open>A list of rows as fresh objects, with the second argument: the state at a call
  \<^verbatim>\<open>apply_heads_to_subtokens(<expression building m>, sub_tokens)\<close>.\<close>

definition fresh_heads :: "int list list \<Rightarrow> string list list \<Rightarrow> pystate" where
  "fresh_heads m st = \<lparr>rows = m, heads = [0..<length m], sub_tokens = st\<rparr>"

subsection \<open>The same loops on values\<close>

text \<open>
  When the rows of \<open>heads\<close> are distinct objects the loops above act on the values of the
  rows alone. These are the three phases read that way.
\<close>

fun insert_sub_rows_value :: "bool \<Rightarrow> nat \<Rightarrow> nat \<Rightarrow> int list list \<Rightarrow> pyerror + int list list" where
  "insert_sub_rows_value zero_sub_tokens i 0 hs = Inr hs"
| "insert_sub_rows_value zero_sub_tokens i (Suc k) hs =
     (if i < length hs then
        let src = hs ! i;
            sub_token_row = (if zero_sub_tokens then map (\<lambda>_. 0) src else src)
        in insert_sub_rows_value zero_sub_tokens i k (list_insert (i + 1) sub_token_row hs)
      else Inl IndexError)"

fun expand_rows_value ::
  "bool \<Rightarrow> string list list \<Rightarrow> nat \<Rightarrow> int list list \<Rightarrow> pyerror + int list list" where
  "expand_rows_value zero_sub_tokens st 0 hs = Inr hs"
| "expand_rows_value zero_sub_tokens st (Suc i) hs =
     (case insert_sub_rows_value zero_sub_tokens i (length (st ! i) - 1) hs of
        Inl e \<Rightarrow> Inl e
      | Inr hs' \<Rightarrow> expand_rows_value zero_sub_tokens st i hs')"

definition heads_to_subtokens_value ::
  "bool \<Rightarrow> int list list \<Rightarrow> string list list \<Rightarrow> pyerror + int list list" where
  "heads_to_subtokens_value zero_sub_tokens hs st =
     (case expand_rows_value zero_sub_tokens st (length st) hs of
        Inl e \<Rightarrow> Inl e
      | Inr hs1 \<Rightarrow>
          let hs2 = map (insert_zero_cols st (length st)) hs1
          in Inr (list_insert 0 (replicate (length hs2 + 1) 0) hs2))"

subsection \<open>The subtoken-level matrix, as the specification describes it\<close>

text \<open>
  A word-level row \<open>r\<^sub>0, r\<^sub>1, \<dots>, r\<^sub>n\<close> (column 0 is the root, column \<open>i + 1\<close> is word \<open>i\<close>)
  with a zero column after column \<open>i + 1\<close> for each subtoken of word \<open>i\<close> but the first.
\<close>

definition spread_row :: "string list list \<Rightarrow> int list \<Rightarrow> int list" where
  "spread_row st row =
     hd row # concat (map (\<lambda>(x, t). x # replicate (length t - 1) 0) (zip (tl row) st))"

text \<open>
  Row 0 is the all-zero row of the [CLS] token. Then, word by word: the word's row for
  its first subtoken, and for each further subtoken a copy of that row (a zero row when
  \<open>zero_sub_tokens\<close>), every row with the zero columns of \<open>spread_row\<close>.
\<close>

definition subtoken_matrix :: "bool \<Rightarrow> int list list \<Rightarrow> string list list \<Rightarrow> int list list" where
  "subtoken_matrix zero_sub_tokens hs st =
     (let m = length (concat st) in
      replicate (m + 1) 0 #
      concat (map (\<lambda>(row, t).
                     spread_row st row #
                     replicate (length t - 1)
                       (if zero_sub_tokens then replicate (m + 1) 0 else spread_row st row))
                  (zip hs st)))"

subsection \<open>Rows and cells of one word\<close>

text \<open>
  The rows the first phase leaves for one word (its own row, then one row per further
  subtoken), and the cells the second phase leaves for one word-level cell.
\<close>

definition word_rows :: "bool \<Rightarrow> int list \<times> string list \<Rightarrow> int list list" where
  "word_rows z p =
     fst p # replicate (length (snd p) - 1) (if z then map (\<lambda>_. 0) (fst p) else fst p)"

definition col_cells :: "int \<times> string list \<Rightarrow> int list" where
  "col_cells p = fst p # replicate (length (snd p) - 1) 0"

subsection \<open>The call in \<^verbatim>\<open>convert_examples_to_features\<close>\<close>

text \<open>
  \<^verbatim>\<open>tokens.extend(word_tokens)\<close> for the non-empty \<^verbatim>\<open>tokenizer.tokenize(word)\<close> of every
  word; the tokenizer is a parameter.
\<close>

fun example_tokens :: "(string \<Rightarrow> string list) \<Rightarrow> string list \<Rightarrow> string list" where
  "example_tokens tokenize [] = []"
| "example_tokens tokenize (word # ws) =
     (let word_tokens = tokenize word
      in (if length word_tokens > 0 then word_tokens else []) @ example_tokens tokenize ws)"

text \<open>\<^verbatim>\<open>binary_heads = apply_heads_to_subtokens(binarize_multi_hot(heads), sub_toks)\<close>\<close>

definition binary_heads ::
  "int list list \<Rightarrow> string list list \<Rightarrow> pyerror \<times> pystate + pystate \<times> ndarray" where
  "binary_heads hs sub_toks =
     apply_heads_to_subtokens False (fresh_heads (binarize_multi_hot hs) sub_toks)"

text \<open>\<^verbatim>\<open>assert binary_heads.shape[0] == binary_heads.shape[1] == len(tokens) + 1\<close>\<close>

definition assert_heads_shape :: "ndarray \<Rightarrow> string list \<Rightarrow> pyerror + unit" where
  "assert_heads_shape a tokens =
     (case shape1 a of
        Inl e \<Rightarrow> Inl e
      | Inr c \<Rightarrow> if shape0 a = c \<and> c = length tokens + 1 then Inr () else Inl AssertionError)"

section \<open>Sentiment labels\<close>

text \<open>
  Source: \<^verbatim>\<open>examples/supervised_sentiment/customized_reviews.py\<close>.
  A Python float is a finite number, an infinity or NaN; comparisons with NaN are false.
\<close>

datatype pyfloat = Num real | PosInf | NegInf | NaN

fun float_less :: "pyfloat \<Rightarrow> pyfloat \<Rightarrow> bool" where
  "float_less NaN y = False"
| "float_less x NaN = False"
| "float_less (Num x) (Num y) = (x < y)"
| "float_less (Num x) PosInf = True"
| "float_less (Num x) NegInf = False"
| "float_less PosInf y = False"
| "float_less NegInf NegInf = False"
| "float_less NegInf y = True"

fun float_eq :: "pyfloat \<Rightarrow> pyfloat \<Rightarrow> bool" where
  "float_eq NaN y = False"
| "float_eq x NaN = False"
| "float_eq x y = (x = y)"

text \<open>
  \<^verbatim>\<open>
  def review_to_sentiment(review):
      norm_text = normalize(review[1])
      review_sent = ["neutral", norm_text]
      score = float(review[0])
      if score > 0:
          review_sent = ["positive", norm_text]
      elif score < 0:
          review_sent = ["negative", norm_text]
      return review_sent
  \<close>
  \<open>review\<close> is a row of \<^verbatim>\<open>csv.reader\<close>, a list of strings. \<^verbatim>\<open>normalize\<close> (from
  \<^verbatim>\<open>nlp_architect.utils.generic\<close>) and the builtin \<^verbatim>\<open>float\<close> are the parameters \<open>normalize_fn\<close> and \<open>to_float\<close>;
  \<open>to_float s = None\<close> is the \<^verbatim>\<open>ValueError\<close> of \<^verbatim>\<open>float(s)\<close>.
\<close>

definition review_to_sentiment ::
  "(string \<Rightarrow> string) \<Rightarrow> (string \<Rightarrow> pyfloat option) \<Rightarrow> string list \<Rightarrow> pyerror + string list" where
  "review_to_sentiment normalize_fn to_float review =
     (if length review < 2 then Inl IndexError
      else
        let norm_text = normalize_fn (review ! 1);
            review_sent = [''neutral'', norm_text]
        in case to_float (review ! 0) of
             None \<Rightarrow> Inl ValueError
           | Some score \<Rightarrow>
               Inr (if float_less (Num 0) score then [''positive'', norm_text]
                    else if float_less score (Num 0) then [''negative'', norm_text]
                    else review_sent))"

section \<open>Reading comprehension: the training script\<close>

text \<open>
  Source: \<^verbatim>\<open>reading_comprehension/tensorflow_implementation/train.py\<close>, the session
  block. The calls into TensorFlow and the file system are events of a trace, in program
  order; each is taken to return. What the script reads from its environment is a field
  of \<open>train_env\<close>: the value given to \<^verbatim>\<open>--restore_training\<close> on the command line (if
  any), \<^verbatim>\<open>params_dict['epoch_no']\<close>, \<^verbatim>\<open>os.path.exists\<close>,
  \<^verbatim>\<open>tf.train.get_checkpoint_state\<close> (the \<^verbatim>\<open>model_checkpoint_path\<close> of the state it
  returns, or \<open>None\<close>) and \<^verbatim>\<open>tf.gfile.Exists\<close>.

  The block reads the global name \<^verbatim>\<open>model_dir\<close>. The script itself never binds that
  name: it parses \<^verbatim>\<open>--model_dir\<close> into \<^verbatim>\<open>args.model_dir\<close> and never reads it. The one
  other place a global name can come from is \<^verbatim>\<open>from utils import *\<close>; \<open>utils_model_dir\<close>
  is the value that import binds to the name, \<open>None\<close> when it binds none, and then the
  read raises \<^verbatim>\<open>NameError\<close>.
\<close>

datatype event =
    MakeDirs string
  | Restore string
  | RunInit
  | Shuffle
  | RunLoopTrain
  | SaveWeights string
  | RunLoopVal

record train_env =
  restore_training_arg :: "string option"
  utils_model_dir :: "string option"
  epoch_no :: int
  path_exists :: "string \<Rightarrow> bool"
  get_checkpoint_state :: "string \<Rightarrow> string option"
  gfile_exists :: "string \<Rightarrow> bool"

text \<open>
  \<^verbatim>\<open>parser.add_argument('--restore_training', default=False, type=bool, ...)\<close>: argparse
  applies \<^verbatim>\<open>bool\<close> to the string given, which is true of every string but the empty one.
\<close>

definition args_restore_training :: "train_env \<Rightarrow> bool" where
  "args_restore_training env =
     (case restore_training_arg env of None \<Rightarrow> False | Some v \<Rightarrow> v \<noteq> [])"

definition epoch_events :: "string \<Rightarrow> event list" where
  "epoch_events train_dir =
     [Shuffle, RunLoopTrain, SaveWeights (train_dir @ ''/best_model.chk''), RunLoopVal]"

text \<open>
  \<^verbatim>\<open>
  if not os.path.exists('trained_model'):
      os.makedirs('trained_model')
  train_dir = os.path.join(model_dir)
  ckpt = tf.train.get_checkpoint_state(train_dir)
  v2_path = ckpt.model_checkpoint_path + ".index" if ckpt else ""
  if ckpt and args.restore_training and (tf.gfile.Exists(ckpt.model_checkpoint_path)
               or tf.gfile.Exists(v2_path)):
      model_saver.restore(sess, ckpt.model_checkpoint_path)
  else:
      sess.run(init)
  for epoch in range(params_dict['epoch_no']):
      shuffle(train); model.run_loop(..., mode='train', ...)
      model_saver.save(sess, "%s/best_model.chk" % train_dir)
      model.run_loop(..., mode='val', ...)
  \<close>
  The result is the trace of the run and the exception that ended it, if one did.
\<close>

definition train_session :: "train_env \<Rightarrow> event list \<times> pyerror option" where
  "train_session env =
     (let made = (if \<not> path_exists env ''trained_model'' then [MakeDirs ''trained_model''] else [])
      in case utils_model_dir env of
           None \<Rightarrow> (made, Some NameError)
         | Some model_dir \<Rightarrow>
             (let train_dir = model_dir;
                  ckpt = get_checkpoint_state env train_dir;
                  v2_path = (case ckpt of Some p \<Rightarrow> p @ ''.index'' | None \<Rightarrow> []);
                  started =
                    (case ckpt of
                       Some p \<Rightarrow>
                         if args_restore_training env \<and>
                            (gfile_exists env p \<or> gfile_exists env v2_path)
                         then [Restore p] else [RunInit]
                     | None \<Rightarrow> [RunInit])
              in (made @ started @
                    concat (map (\<lambda>epoch. epoch_events train_dir) [0..<nat (epoch_no env)]),
                  None)))"

text \<open>
  The condition of the restore branch: the checkpoint state of the directory names a
  checkpoint that exists (as a file, or as a V2 index file).
\<close>

definition stored_checkpoint :: "train_env \<Rightarrow> string \<Rightarrow> string option" where
  "stored_checkpoint env dir =
     (case get_checkpoint_state env dir of
        Some p \<Rightarrow> if gfile_exists env p \<or> gfile_exists env (p @ ''.index'') then Some p else None
      | None \<Rightarrow> None)"

definition is_start :: "event \<Rightarrow> bool" where
  "is_start e = (case e of Restore p \<Rightarrow> True | RunInit \<Rightarrow> True | _ \<Rightarrow> False)"

definition is_training :: "event \<Rightarrow> bool" where
  "is_training e =
     (case e of Shuffle \<Rightarrow> True | RunLoopTrain \<Rightarrow> True | SaveWeights p \<Rightarrow> True
      | RunLoopVal \<Rightarrow> True | _ \<Rightarrow> False)"

section \<open>Set expansion: marking noun phrases in the corpus\<close>

text \<open>
  Source: \<^verbatim>\<open>solutions/set_expansion/prepare_data.py\<close>, the loop over the documents of
  \<^verbatim>\<open>nlp.pipe(corpus_file)\<close>. Of a spaCy token the loop reads \<^verbatim>\<open>idx\<close> and \<^verbatim>\<open>text\<close>, of a
  noun chunk \<^verbatim>\<open>start_char\<close>, \<^verbatim>\<open>end_char\<close>, \<^verbatim>\<open>text\<close> and \<^verbatim>\<open>lemma_\<close>.
\<close>

record token =
  token_idx :: nat
  token_text :: string

record span =
  start_char :: nat
  end_char :: nat
  span_text :: string
  span_lemma :: string

record doc =
  tokens :: "token list"
  noun_chunks :: "span list"

text \<open>The four module-level dictionaries.\<close>

record np_dicts =
  np2id :: "string \<rightharpoonup> string"
  id2group :: "string \<rightharpoonup> string list"
  id2rep :: "string \<rightharpoonup> string"
  np2count :: "string \<rightharpoonup> int"

text \<open>
  The state of the loop: the dictionaries, the loop's variables \<^verbatim>\<open>spans\<close>, \<^verbatim>\<open>span\<close> and
  \<^verbatim>\<open>spanWritten\<close>, and the strings written to \<^verbatim>\<open>marked_corpus_file\<close>, one per call of
  \<^verbatim>\<open>write\<close>.
\<close>

record loop_state =
  dicts :: np_dicts
  spans :: "span list"
  span :: "span option"
  spanWritten :: bool
  written :: "string list"

definition init_dicts :: np_dicts where
  "init_dicts = \<lparr>np2id = Map.empty, id2group = Map.empty, id2rep = Map.empty, np2count = Map.empty\<rparr>"

definition init_state :: loop_state where
  "init_state = \<lparr>dicts = init_dicts, spans = [], span = None, spanWritten = False, written = []\<rparr>"

text \<open>
  \<^verbatim>\<open>str.strip()\<close> removes the white space at both ends. Characters are bytes here; these
  are the code points below 256 that Python takes for white space.
\<close>

definition py_isspace :: "char \<Rightarrow> bool" where
  "py_isspace c = (of_char c \<in> set [9, 10, 11, 12, 13, 28, 29, 30, 31, 32, 133, 160 :: nat])"

definition str_strip :: "string \<Rightarrow> string" where
  "str_strip s = rev (dropWhile py_isspace (rev (dropWhile py_isspace s)))"

text \<open>\<^verbatim>\<open>s.replace(' ', mark_char)\<close>\<close>

definition replace_spaces :: "string \<Rightarrow> string \<Rightarrow> string" where
  "replace_spaces mark_char s = concat (map (\<lambda>c. if c = CHR '' '' then mark_char else [c]) s)"

text \<open>
  \<^verbatim>\<open>if len(token.text.strip()) > 0: marked_corpus_file.write(token.text + ' ')\<close>:
  what the loop writes for a token outside a span.
\<close>

definition outside_text :: "token \<Rightarrow> string list" where
  "outside_text t = (if length (str_strip (token_text t)) > 0 then [token_text t @ '' ''] else [])"

text \<open>
  The update of the dictionaries for a span (the lines from \<^verbatim>\<open>np = span.text\<close> to the
  \<^verbatim>\<open>else\<close> branch on \<^verbatim>\<open>id2group\<close>). \<^verbatim>\<open>spacy_normalizer\<close> (from
  \<^verbatim>\<open>nlp_architect.utils.text_preprocess\<close>) is a parameter. A subscript on a missing key
  raises \<^verbatim>\<open>KeyError\<close>; the comparison reads \<^verbatim>\<open>np2count[np]\<close>, then \<^verbatim>\<open>id2rep[norm]\<close>, then
  \<^verbatim>\<open>np2count\<close> of that.
  \<^verbatim>\<open>
  np = span.text
  if np not in np2count:
      np2count[np] = 1
  else:
      np2count[np] += 1
  norm = spacy_normalizer(np, span.lemma_)
  np2id[np] = norm
  if norm not in id2rep:
      id2rep[norm] = np
  if norm in id2group:
      if np not in id2group[norm]:
          id2group[norm].append(np)
      elif np2count[np] > np2count[id2rep[norm]]:
          id2rep[norm] = np  # replace rep
  else:
      id2group[norm] = [np]
      id2rep[norm] = np
  \<close>
\<close>

definition register_np ::
  "(string \<Rightarrow> string \<Rightarrow> string) \<Rightarrow> span \<Rightarrow> np_dicts \<Rightarrow> pyerror + np_dicts" where
  "register_np spacy_normalizer sp d =
     (let np = span_text sp;
          d1 = d\<lparr>np2count := (np2count d)(np \<mapsto> (case np2count d np of None \<Rightarrow> 1 | Some c \<Rightarrow> c + 1))\<rparr>;
          norm = spacy_normalizer np (span_lemma sp);
          d2 = d1\<lparr>np2id := (np2id d1)(np \<mapsto> norm)\<rparr>;
          d3 = (if id2rep d2 norm = None then d2\<lparr>id2rep := (id2rep d2)(norm \<mapsto> np)\<rparr> else d2)
      in case id2group d3 norm of
           Some grp \<Rightarrow>
             if np \<notin> set grp
             then Inr (d3\<lparr>id2group := (id2group d3)(norm \<mapsto> grp @ [np])\<rparr>)
             else (case np2count d3 np of
                     None \<Rightarrow> Inl KeyError
                   | Some np_count \<Rightarrow>
                       (case id2rep d3 norm of
                          None \<Rightarrow> Inl KeyError
                        | Some rep \<Rightarrow>
                            (case np2count d3 rep of
                               None \<Rightarrow> Inl KeyError
                             | Some rep_count \<Rightarrow>
                                 if np_count > rep_count
                                 then Inr (d3\<lparr>id2rep := (id2rep d3)(norm \<mapsto> np)\<rparr>)
                                 else Inr d3)))
         | None \<Rightarrow>
             Inr (d3\<lparr>id2group := (id2group d3)(norm \<mapsto> [np]),
                     id2rep := (id2rep d3)(norm \<mapsto> np)\<rparr>))"

text \<open>
  The text of a marked noun phrase:
  \<^verbatim>\<open>id2rep[norm].replace(' ', args.mark_char) + args.mark_char\<close>, written with a space
  after it.
\<close>

definition marked_text :: "string \<Rightarrow> string \<Rightarrow> string" where
  "marked_text mark_char rep = replace_spaces mark_char rep @ mark_char"

text \<open>The branch \<^verbatim>\<open>if not spanWritten:\<close> of the loop.\<close>

definition write_span ::
  "(string \<Rightarrow> string \<Rightarrow> string) \<Rightarrow> string \<Rightarrow> span \<Rightarrow> loop_state \<Rightarrow> pyerror + loop_state" where
  "write_span spacy_normalizer mark_char sp s =
     (case register_np spacy_normalizer sp (dicts s) of
        Inl e \<Rightarrow> Inl e
      | Inr d \<Rightarrow>
          (case id2rep d (spacy_normalizer (span_text sp) (span_lemma sp)) of
             None \<Rightarrow> Inl KeyError
           | Some rep \<Rightarrow>
               Inr (s\<lparr>dicts := d,
                      written := written s @ [marked_text mark_char rep @ '' ''],
                      spanWritten := True\<rparr>)))"

text \<open>
  \<^verbatim>\<open>
  if len(spans) > 0:
      span = spans.pop(0)
  else:
      span = None
  spanWritten = False
  \<close>
\<close>

definition next_span :: "loop_state \<Rightarrow> loop_state" where
  "next_span s =
     (case spans s of
        p # ps \<Rightarrow> s\<lparr>spans := ps, span := Some p, spanWritten := False\<rparr>
      | [] \<Rightarrow> s\<lparr>span := None, spanWritten := False\<rparr>)"

text \<open>The body of \<^verbatim>\<open>for token in doc:\<close>.\<close>

definition token_step ::
  "(string \<Rightarrow> string \<Rightarrow> string) \<Rightarrow> string \<Rightarrow> token \<Rightarrow> loop_state \<Rightarrow> pyerror + loop_state" where
  "token_step spacy_normalizer mark_char t s =
     (case span s of
        None \<Rightarrow> Inr (s\<lparr>written := written s @ outside_text t\<rparr>)
      | Some sp \<Rightarrow>
          if token_idx t < start_char sp \<or> token_idx t \<ge> end_char sp
          then Inr (s\<lparr>written := written s @ outside_text t\<rparr>)
          else
            (case (if \<not> spanWritten s then write_span spacy_normalizer mark_char sp s else Inr s) of
               Inl e \<Rightarrow> Inl e
             | Inr s1 \<Rightarrow>
                 Inr (if token_idx t + length (token_text t) = end_char sp
                      then next_span s1 else s1)))"

fun process_tokens ::
  "(string \<Rightarrow> string \<Rightarrow> string) \<Rightarrow> string \<Rightarrow> token list \<Rightarrow> loop_state \<Rightarrow> pyerror + loop_state" where
  "process_tokens spacy_normalizer mark_char [] s = Inr s"
| "process_tokens spacy_normalizer mark_char (t # ts) s =
     (case token_step spacy_normalizer mark_char t s of
        Inl e \<Rightarrow> Inl e
      | Inr s' \<Rightarrow> process_tokens spacy_normalizer mark_char ts s')"

text \<open>
  The head of the loop over documents: \<^verbatim>\<open>spans\<close> gets the noun chunks, \<^verbatim>\<open>span\<close> the
  first of them. (The counter \<^verbatim>\<open>i\<close> only feeds the log.)
\<close>

definition begin_doc :: "doc \<Rightarrow> loop_state \<Rightarrow> loop_state" where
  "begin_doc d s = next_span (s\<lparr>spans := noun_chunks d\<rparr>)"

definition process_doc ::
  "(string \<Rightarrow> string \<Rightarrow> string) \<Rightarrow> string \<Rightarrow> doc \<Rightarrow> loop_state \<Rightarrow> pyerror + loop_state" where
  "process_doc spacy_normalizer mark_char d s =
     (case process_tokens spacy_normalizer mark_char (tokens d) (begin_doc d s) of
        Inl e \<Rightarrow> Inl e
      | Inr s' \<Rightarrow> Inr (s'\<lparr>written := written s' @ [[CHR 0x0A]]\<rparr>))"

fun process_corpus ::
  "(string \<Rightarrow> string \<Rightarrow> string) \<Rightarrow> string \<Rightarrow> doc list \<Rightarrow> loop_state \<Rightarrow> pyerror + loop_state" where
  "process_corpus spacy_normalizer mark_char [] s = Inr s"
| "process_corpus spacy_normalizer mark_char (d # ds) s =
     (case process_doc spacy_normalizer mark_char d s of
        Inl e \<Rightarrow> Inl e
      | Inr s' \<Rightarrow> process_corpus spacy_normalizer mark_char ds s')"

subsection \<open>The invariant of the grouping dictionaries\<close>

text \<open>
  \<open>id2group\<close> and \<open>id2rep\<close> have the same keys, and the representative of a key is a member
  of its group.
\<close>

definition groups_inv :: "np_dicts \<Rightarrow> bool" where
  "groups_inv d =
     (dom (id2group d) = dom (id2rep d) \<and>
      (\<forall>norm rep. id2rep d norm = Some rep \<longrightarrow>
         (\<exists>grp. id2group d norm = Some grp \<and> rep \<in> set grp)))"

text \<open>Every representative has been counted, so the comparison of the counts finds both.\<close>

definition reps_counted :: "np_dicts \<Rightarrow> bool" where
  "reps_counted d = (\<forall>norm rep. id2rep d norm = Some rep \<longrightarrow> np2count d rep \<noteq> None)"

text \<open>Both hold of the dictionaries all through the loop.\<close>

definition state_ok :: "loop_state \<Rightarrow> bool" where
  "state_ok s = (groups_inv (dicts s) \<and> reps_counted (dicts s))"

subsection \<open>Documents as spaCy gives them\<close>

text \<open>
  The tokens of a document are in text order, do not overlap, and none is empty. A noun
  chunk is a non-empty run of tokens: it starts where one token starts and ends where a
  token ends. The chunks come in text order and do not overlap.
\<close>

fun tokens_ok :: "token list \<Rightarrow> bool" where
  "tokens_ok [] = True"
| "tokens_ok [t] = (token_text t \<noteq> [])"
| "tokens_ok (t # u # ts) =
     (token_text t \<noteq> [] \<and> token_idx t + length (token_text t) \<le> token_idx u \<and> tokens_ok (u # ts))"

definition span_on :: "token list \<Rightarrow> span \<Rightarrow> bool" where
  "span_on ts sp =
     (start_char sp < end_char sp \<and>
      (\<exists>t \<in> set ts. token_idx t = start_char sp) \<and>
      (\<exists>t \<in> set ts. token_idx t + length (token_text t) = end_char sp))"

fun spans_ok :: "span list \<Rightarrow> bool" where
  "spans_ok [] = True"
| "spans_ok [p] = True"
| "spans_ok (p # q # ps) = (end_char p \<le> start_char q \<and> spans_ok (q # ps))"

definition doc_ok :: "doc \<Rightarrow> bool" where
  "doc_ok d =
     (tokens_ok (tokens d) \<and> (\<forall>sp \<in> set (noun_chunks d). span_on (tokens d) sp) \<and>
      spans_ok (noun_chunks d))"

subsection \<open>The marked line of a document, as the specification describes it\<close>

text \<open>
  In document order: the tokens before the next noun chunk, each written as
  \<open>outside_text\<close> has it; then the chunk, once, as the marked text of its group's
  representative (the representative once the chunk is registered); then the rest of
  the document after the chunk.
\<close>

fun marked_line ::
  "(string \<Rightarrow> string \<Rightarrow> string) \<Rightarrow> string \<Rightarrow> span list \<Rightarrow> token list \<Rightarrow> np_dicts \<Rightarrow> string list" where
  "marked_line spacy_normalizer mark_char [] ts d = concat (map outside_text ts)"
| "marked_line spacy_normalizer mark_char (sp # sps) ts d =
     (case register_np spacy_normalizer sp d of
        Inl e \<Rightarrow> []
      | Inr d' \<Rightarrow>
          concat (map outside_text (takeWhile (\<lambda>t. token_idx t < start_char sp) ts)) @
          [marked_text mark_char
             (case id2rep d' (spacy_normalizer (span_text sp) (span_lemma sp)) of
                Some rep \<Rightarrow> rep | None \<Rightarrow> []) @ '' ''] @
          marked_line spacy_normalizer mark_char sps
            (dropWhile (\<lambda>t. token_idx t < end_char sp) ts) d')"

subsection \<open>An example document\<close>

text \<open>
  The line \<^verbatim>\<open>The cat saw  the cat.\<close> with its tokens (one of them white space) and its
  two noun chunks, which share the lemma \<^verbatim>\<open>cat\<close>.
\<close>

definition example_doc :: doc where
  "example_doc =
     \<lparr>tokens = [\<lparr>token_idx = 0, token_text = ''The''\<rparr>, \<lparr>token_idx = 4, token_text = ''cat''\<rparr>,
                \<lparr>token_idx = 8, token_text = ''saw''\<rparr>, \<lparr>token_idx = 11, token_text = ''  ''\<rparr>,
                \<lparr>token_idx = 13, token_text = ''the''\<rparr>, \<lparr>token_idx = 17, token_text = ''cat''\<rparr>,
                \<lparr>token_idx = 20, token_text = ''.''\<rparr>],
      noun_chunks = [\<lparr>start_char = 0, end_char = 7, span_text = ''The cat'', span_lemma = ''cat''\<rparr>,
                     \<lparr>start_char = 13, end_char = 20, span_text = ''the cat'', span_lemma = ''cat''\<rparr>]\<rparr>"

section \<open>Properties of the binarisation\<close>

text \<open>
  C8: for a list \<open>hs\<close> of \<open>n\<close> head-index lists, \<open>binarize_multi_hot hs\<close> has
  \<open>n\<close> rows of length \<open>n + 1\<close>; row \<open>i\<close> holds 1 exactly at the indices that occur in
  \<open>hs ! i\<close> and 0 elsewhere, except that an empty \<open>hs ! i\<close> gives the all-ones row.
\<close>

theorem binarize_multi_hot_rows:
  "length (binarize_multi_hot hs) = length hs \<and>
   (\<forall>i < length hs.
      length (binarize_multi_hot hs ! i) = length hs + 1 \<and>
      (\<forall>j < length hs + 1.
         binarize_multi_hot hs ! i ! j =
           (if hs ! i = [] then 1 else if int j \<in> set (hs ! i) then 1 else 0)))"
  by (simp add: binarize_multi_hot_def Let_def del: upt_Suc replicate_Suc)

theorem binarize_multi_hot_rows_witness:
  "length (binarize_multi_hot [[1], [0, 1], []]) = 3 \<and>
   binarize_multi_hot [[1], [0, 1], []] ! 1 ! 0 = 1 \<and>
   binarize_multi_hot [[1], [0, 1], []] ! 1 ! 2 = 0 \<and>
   binarize_multi_hot [[1], [0, 1], []] ! 2 ! 3 = 1 \<and>
   length (binarize_multi_hot [[1], [0, 1], []] ! 0) = 4"
  using binarize_multi_hot_rows [of "[[1], [0, 1], []]"]
  by (simp add: nth_Cons')

text \<open>
  C9: on singleton head lists \<open>binarize_multi_hot\<close> is \<open>binarize\<close>:
  \<open>binarize_multi_hot [[p] for p in preds] = binarize preds\<close>.
\<close>

theorem binarize_multi_hot_singletons:
  "binarize_multi_hot (map (\<lambda>p. [p]) preds) = binarize preds"
  by (simp add: binarize_multi_hot_def binarize_def Let_def)

section \<open>Remapping heads onto subtokens\<close>

subsection \<open>List insertion\<close>

lemma length_list_insert [simp]: "length (list_insert i x xs) = Suc (length xs)"
  by (simp add: list_insert_def)

lemma set_list_insert [simp]: "set (list_insert i x xs) = insert x (set xs)"
proof -
  have "set (take i xs) \<union> set (drop i xs) = set xs"
    by (metis append_take_drop_id set_append)
  then show ?thesis by (auto simp: list_insert_def)
qed

lemma distinct_list_insert [simp]:
  "distinct (list_insert i x xs) \<longleftrightarrow> x \<notin> set xs \<and> distinct xs"
proof -
  have "distinct (take i xs @ drop i xs) = distinct xs" by simp
  moreover have "set (take i xs) \<union> set (drop i xs) = set xs"
    by (metis append_take_drop_id set_append)
  ultimately show ?thesis
    unfolding list_insert_def by (auto simp del: append_take_drop_id)
qed

lemma map_list_insert: "map f (list_insert i x xs) = list_insert i (f x) (map f xs)"
  by (simp add: list_insert_def take_map drop_map)

lemma list_insert_nth_before: "j < i \<Longrightarrow> j < length xs \<Longrightarrow> list_insert i x xs ! j = xs ! j"
  by (simp add: list_insert_def nth_append)

lemma funpow_list_insert:
  "j \<le> length xs \<Longrightarrow> (list_insert j x ^^ k) xs = take j xs @ replicate k x @ drop j xs"
proof (induction k)
  case 0
  then show ?case by simp
next
  case (Suc k)
  then show ?case
    by (simp add: list_insert_def replicate_app_Cons_same)
qed

subsection \<open>The loops on objects and on values agree\<close>

lemma heads_value_alloc_insert:
  assumes "heap_ok s"
  shows "heads_value (s\<lparr>rows := rows s @ [v], heads := list_insert j (length (rows s)) (heads s)\<rparr>)
         = list_insert j v (heads_value s)"
proof -
  have old: "map ((!) (rows s @ [v])) (heads s) = map ((!) (rows s)) (heads s)"
    using assms by (auto simp: heap_ok_def nth_append)
  show ?thesis
    by (simp add: heads_value_def map_list_insert old)
qed

lemma heap_ok_alloc_insert:
  assumes "heap_ok s"
  shows "heap_ok (s\<lparr>rows := rows s @ [v], heads := list_insert j (length (rows s)) (heads s)\<rparr>)"
  using assms by (auto simp: heap_ok_def)

lemma distinct_alloc_insert:
  assumes "heap_ok s" "distinct (heads s)"
  shows "distinct (list_insert j (length (rows s)) (heads s))"
  using assms by (auto simp: heap_ok_def)

lemma insert_sub_rows_refines:
  assumes "heap_ok s" "distinct (heads s)"
  shows "case insert_sub_rows z i k s of
           Inl e \<Rightarrow> insert_sub_rows_value z i k (heads_value s) = Inl (fst e)
         | Inr s' \<Rightarrow> insert_sub_rows_value z i k (heads_value s) = Inr (heads_value s') \<and>
                     heap_ok s' \<and> distinct (heads s') \<and> sub_tokens s' = sub_tokens s"
  using assms
proof (induction k arbitrary: s)
  case 0
  then show ?case by simp
next
  case (Suc k)
  let ?L = "length (rows s)"
  show ?case
  proof (cases "i < length (heads s)")
    case False
    then show ?thesis by (simp add: heads_value_def)
  next
    case True
    let ?v = "if z then map (\<lambda>_. 0) (rows s ! (heads s ! i)) else rows s ! (heads s ! i)"
    let ?s1 = "s\<lparr>rows := rows s @ [?v], heads := list_insert (i + 1) ?L (heads s)\<rparr>"
    have step: "insert_sub_rows z i (Suc k) s = insert_sub_rows z i k ?s1"
      using True by (simp add: alloc_row_def Let_def)
    have hv: "heads_value ?s1 = list_insert (i + 1) ?v (heads_value s)"
      by (rule heads_value_alloc_insert [OF Suc.prems(1)])
    have vi: "heads_value s ! i = rows s ! (heads s ! i)"
      using True by (simp add: heads_value_def)
    have len: "length (heads_value s) = length (heads s)"
      by (simp add: heads_value_def)
    have vstep: "insert_sub_rows_value z i (Suc k) (heads_value s)
                 = insert_sub_rows_value z i k (heads_value ?s1)"
      unfolding hv using True vi len by (simp add: Let_def)
    have ok1: "heap_ok ?s1" by (rule heap_ok_alloc_insert [OF Suc.prems(1)])
    have d1: "distinct (heads ?s1)"
      using distinct_alloc_insert [OF Suc.prems] by simp
    have st1: "sub_tokens ?s1 = sub_tokens s" by simp
    from Suc.IH [OF ok1 d1] show ?thesis
      unfolding step vstep st1 .
  qed
qed

lemma expand_rows_refines:
  assumes "heap_ok s" "distinct (heads s)"
  shows "case expand_rows z n s of
           Inl e \<Rightarrow> expand_rows_value z (sub_tokens s) n (heads_value s) = Inl (fst e)
         | Inr s' \<Rightarrow> expand_rows_value z (sub_tokens s) n (heads_value s) = Inr (heads_value s') \<and>
                     heap_ok s' \<and> distinct (heads s') \<and> sub_tokens s' = sub_tokens s"
  using assms
proof (induction n arbitrary: s)
  case 0
  then show ?case by simp
next
  case (Suc i)
  let ?k = "length (sub_tokens s ! i) - 1"
  show ?case
  proof (cases "insert_sub_rows z i ?k s")
    case (Inl e)
    with insert_sub_rows_refines [OF Suc.prems, of z i ?k] show ?thesis by simp
  next
    case (Inr s1)
    with insert_sub_rows_refines [OF Suc.prems, of z i ?k]
    have v: "insert_sub_rows_value z i ?k (heads_value s) = Inr (heads_value s1)"
      and ok1: "heap_ok s1" and d1: "distinct (heads s1)"
      and st1: "sub_tokens s1 = sub_tokens s"
      by simp_all
    from Suc.IH [OF ok1 d1] show ?thesis
      unfolding expand_rows.simps expand_rows_value.simps Inr v st1
      by (cases "expand_rows z i s1") simp_all
  qed
qed

lemma fold_update_other:
  "b \<notin> set as \<Longrightarrow> fold (\<lambda>a rs. rs[a := g (rs ! a)]) as rs ! b = rs ! b"
  by (induction as arbitrary: rs) auto

lemma length_fold_update [simp]:
  "length (fold (\<lambda>a rs. rs[a := g (rs ! a)]) as rs) = length rs"
  by (induction as arbitrary: rs) auto

lemma fold_update_distinct:
  assumes "distinct as" "\<forall>a \<in> set as. a < length rs"
  shows "map ((!) (fold (\<lambda>a rs. rs[a := g (rs ! a)]) as rs)) as = map (\<lambda>a. g (rs ! a)) as"
  using assms
proof (induction as arbitrary: rs)
  case Nil
  then show ?case by simp
next
  case (Cons a as)
  let ?rs1 = "rs[a := g (rs ! a)]"
  have hd: "fold (\<lambda>a rs. rs[a := g (rs ! a)]) as ?rs1 ! a = g (rs ! a)"
    using Cons.prems by (simp add: fold_update_other)
  have "map ((!) (fold (\<lambda>a rs. rs[a := g (rs ! a)]) as ?rs1)) as = map (\<lambda>b. g (?rs1 ! b)) as"
    using Cons.prems by (intro Cons.IH) auto
  also have "\<dots> = map (\<lambda>b. g (rs ! b)) as"
  proof (rule map_cong [OF refl])
    fix b assume "b \<in> set as"
    with Cons.prems have "b \<noteq> a" by auto
    then show "g (?rs1 ! b) = g (rs ! b)" by simp
  qed
  finally show ?case using hd by simp
qed

lemma expand_cols_value:
  assumes "heap_ok s" "distinct (heads s)"
  shows "heads_value (expand_cols s)
           = map (insert_zero_cols (sub_tokens s) (length (sub_tokens s))) (heads_value s)"
    and "heap_ok (expand_cols s)" and "heads (expand_cols s) = heads s"
    and "sub_tokens (expand_cols s) = sub_tokens s"
  using assms fold_update_distinct [of "heads s" "rows s"]
  by (simp_all add: heads_value_def expand_cols_def heap_ok_def)

lemma insert_cls_row_value:
  assumes "heap_ok s"
  shows "heads_value (insert_cls_row s)
           = list_insert 0 (replicate (length (heads_value s) + 1) 0) (heads_value s)"
    and "heap_ok (insert_cls_row s)" and "sub_tokens (insert_cls_row s) = sub_tokens s"
  using heads_value_alloc_insert [OF assms, where v = "replicate (length (heads s) + 1) 0" and j = 0]
        heap_ok_alloc_insert [OF assms, where v = "replicate (length (heads s) + 1) 0" and j = 0]
  by (simp_all add: insert_cls_row_def alloc_row_def heads_value_def)

lemma apply_heads_refines:
  assumes "heap_ok s" "unaliased s"
  shows "case apply_heads_to_subtokens z s of
           Inl e \<Rightarrow> heads_to_subtokens_value z (heads_value s) (sub_tokens s) = Inl (fst e)
         | Inr (s', a) \<Rightarrow>
             heads_to_subtokens_value z (heads_value s) (sub_tokens s) = Inr (heads_value s') \<and>
             a = np_array (heads_value s') \<and> sub_tokens s' = sub_tokens s \<and> heap_ok s'"
proof -
  have d: "distinct (heads s)" using assms(2) by (simp add: unaliased_def)
  let ?n = "length (sub_tokens s)"
  show ?thesis
  proof (cases "expand_rows z ?n s")
    case (Inl e)
    with expand_rows_refines [OF assms(1) d, of z ?n] show ?thesis
      by (simp add: apply_heads_to_subtokens_def heads_to_subtokens_value_def)
  next
    case (Inr s1)
    with expand_rows_refines [OF assms(1) d, of z ?n]
    have v: "expand_rows_value z (sub_tokens s) ?n (heads_value s) = Inr (heads_value s1)"
      and ok1: "heap_ok s1" and d1: "distinct (heads s1)"
      and st1: "sub_tokens s1 = sub_tokens s"
      by simp_all
    note c = expand_cols_value [OF ok1 d1]
    note r = insert_cls_row_value [OF c(2)]
    show ?thesis
      by (simp add: apply_heads_to_subtokens_def heads_to_subtokens_value_def Inr v Let_def
            r c st1)
  qed
qed

subsection \<open>What the loops compute on a word-level matrix\<close>

lemma insert_sub_rows_value_closed:
  "i < length hs \<Longrightarrow>
   insert_sub_rows_value z i k hs =
     Inr (take (Suc i) hs @ replicate k (if z then map (\<lambda>_. 0) (hs ! i) else hs ! i) @ drop (Suc i) hs)"
proof (induction k arbitrary: hs)
  case 0
  then show ?case by simp
next
  case (Suc k)
  let ?v = "if z then map (\<lambda>_. 0) (hs ! i) else hs ! i"
  let ?hs1 = "list_insert (Suc i) ?v hs"
  have n: "?hs1 ! i = hs ! i" using Suc.prems by (simp add: list_insert_nth_before)
  have t: "take (Suc i) ?hs1 = take (Suc i) hs" using Suc.prems by (simp add: list_insert_def)
  have d: "drop (Suc i) ?hs1 = ?v # drop (Suc i) hs" using Suc.prems by (simp add: list_insert_def)
  have "insert_sub_rows_value z i (Suc k) hs = insert_sub_rows_value z i k ?hs1"
    using Suc.prems by (simp add: Let_def)
  also have "\<dots> = Inr (take (Suc i) ?hs1 @ replicate k (if z then map (\<lambda>_. 0) (?hs1 ! i) else ?hs1 ! i)
                         @ drop (Suc i) ?hs1)"
    using Suc.prems by (intro Suc.IH) simp
  also have "\<dots> = Inr (take (Suc i) hs @ replicate (Suc k) ?v @ drop (Suc i) hs)"
    unfolding n t d by (simp add: replicate_app_Cons_same)
  finally show ?case .
qed

lemma expand_rows_value_closed:
  "n \<le> length hs \<Longrightarrow> n \<le> length st \<Longrightarrow>
   expand_rows_value z st n hs =
     Inr (concat (map (word_rows z) (zip (take n hs) (take n st))) @ drop n hs)"
proof (induction n arbitrary: hs)
  case 0
  then show ?case by simp
next
  case (Suc i)
  let ?k = "length (st ! i) - 1"
  let ?v = "if z then map (\<lambda>_. 0) (hs ! i) else hs ! i"
  let ?hs1 = "take (Suc i) hs @ replicate ?k ?v @ drop (Suc i) hs"
  have i: "i < length hs" "i < length st" using Suc.prems by simp_all
  have inner: "insert_sub_rows_value z i ?k hs = Inr ?hs1"
    by (rule insert_sub_rows_value_closed [OF i(1)])
  have t: "take i ?hs1 = take i hs" using i by (simp add: min_def)
  have d: "drop i ?hs1 = word_rows z (hs ! i, st ! i) @ drop (Suc i) hs"
    using i by (simp add: word_rows_def Cons_nth_drop_Suc [symmetric] take_Suc_conv_app_nth)
  have "expand_rows_value z st (Suc i) hs = expand_rows_value z st i ?hs1"
    by (simp only: expand_rows_value.simps inner sum.case)
  also have "\<dots> = Inr (concat (map (word_rows z) (zip (take i ?hs1) (take i st))) @ drop i ?hs1)"
    using i by (intro Suc.IH) simp_all
  also have "\<dots> = Inr (concat (map (word_rows z) (zip (take (Suc i) hs) (take (Suc i) st)))
                        @ drop (Suc i) hs)"
    unfolding t d using i by (simp add: take_Suc_conv_app_nth)
  finally show ?case .
qed

lemma insert_zero_cols_closed:
  "i < length row \<Longrightarrow> i \<le> length st \<Longrightarrow>
   insert_zero_cols st i row =
     take 1 row @ concat (map col_cells (zip (take i (tl row)) (take i st))) @ drop (Suc i) row"
proof (induction i arbitrary: row)
  case 0
  then show ?case by (cases row) simp_all
next
  case (Suc i)
  let ?k = "length (st ! i) - 1"
  let ?row1 = "take (i + 2) row @ replicate ?k 0 @ drop (i + 2) row"
  have i: "Suc i < length row" "i < length st" using Suc.prems by simp_all
  have fp: "(list_insert (i + 2) 0 ^^ ?k) row = ?row1"
    using i by (intro funpow_list_insert) simp
  have t1: "take 1 ?row1 = take 1 row" using i by simp
  have tt: "take i (tl ?row1) = take i (tl row)"
    using i by (cases row) (simp_all add: min_def)
  have d: "drop (Suc i) ?row1 = col_cells (row ! Suc i, st ! i) @ drop (Suc (Suc i)) row"
    using i by (simp add: col_cells_def Cons_nth_drop_Suc [symmetric] take_Suc_conv_app_nth)
  have tl_nth: "tl row ! i = row ! Suc i" using i by (cases row) simp_all
  have "insert_zero_cols st (Suc i) row = insert_zero_cols st i ?row1"
    by (simp only: insert_zero_cols.simps fp)
  also have "\<dots> = take 1 ?row1 @ concat (map col_cells (zip (take i (tl ?row1)) (take i st)))
                     @ drop (Suc i) ?row1"
    using i by (intro Suc.IH) simp_all
  also have "\<dots> = take 1 row @ concat (map col_cells (zip (take (Suc i) (tl row)) (take (Suc i) st)))
                     @ drop (Suc (Suc i)) row"
    unfolding t1 tt d using i by (simp add: take_Suc_conv_app_nth tl_nth)
  finally show ?case .
qed

lemma insert_zero_cols_spread:
  assumes "length row = length st + 1"
  shows "insert_zero_cols st (length st) row = spread_row st row"
proof -
  have "insert_zero_cols st (length st) row =
          take 1 row @ concat (map col_cells (zip (take (length st) (tl row)) (take (length st) st)))
          @ drop (Suc (length st)) row"
    using assms by (intro insert_zero_cols_closed) simp_all
  moreover have "take 1 row = [hd row]" using assms by (cases row) simp_all
  moreover have "col_cells = (\<lambda>(x, t). x # replicate (length t - 1) 0)"
    by (auto simp: col_cells_def fun_eq_iff)
  ultimately show ?thesis using assms by (simp add: spread_row_def)
qed

lemma length_concat_word_rows:
  "length hs = length st \<Longrightarrow> \<forall>t \<in> set st. t \<noteq> [] \<Longrightarrow>
   length (concat (map (word_rows z) (zip hs st))) = length (concat st)"
proof (induction hs st rule: list_induct2)
  case Nil
  then show ?case by simp
next
  case (Cons row hs t st)
  then have "t \<noteq> []" by simp
  then have "Suc (length t - 1) = length t" by (cases t) simp_all
  with Cons show ?case by (simp add: word_rows_def)
qed

lemma concat_zero_cells:
  "\<forall>t \<in> set st. t \<noteq> [] \<Longrightarrow>
   concat (map (\<lambda>(x, t). x # replicate (length t - 1) 0) (zip (replicate (length st) 0) st))
     = replicate (length (concat st)) (0::int)"
proof (induction st)
  case Nil
  then show ?case by simp
next
  case (Cons t st)
  then have "t \<noteq> []" by simp
  then have "Suc (length t - 1) = length t" by (cases t) simp_all
  then have "(0::int) # replicate (length t - 1) 0 = replicate (length t) 0"
    by (metis replicate_Suc)
  with Cons show ?case by (simp add: replicate_add)
qed

lemma spread_row_zeros:
  "\<forall>t \<in> set st. t \<noteq> [] \<Longrightarrow>
   spread_row st (replicate (length st + 1) 0) = replicate (length (concat st) + 1) 0"
  using concat_zero_cells [of st] by (simp add: spread_row_def)

lemma map_zero_row: "map (\<lambda>_. 0::int) row = replicate (length row) 0"
  by (induction row) simp_all

lemma heads_to_subtokens_value_closed:
  assumes "length hs = length st"
    and "\<forall>row \<in> set hs. length row = length st + 1"
    and "\<forall>t \<in> set st. t \<noteq> []"
  shows "heads_to_subtokens_value z hs st = Inr (subtoken_matrix z hs st)"
proof -
  let ?m = "length (concat st)"
  let ?F = "insert_zero_cols st (length st)"
  let ?G = "\<lambda>(row, t). spread_row st row #
              replicate (length t - 1) (if z then replicate (?m + 1) 0 else spread_row st row)"
  have e: "expand_rows_value z st (length st) hs = Inr (concat (map (word_rows z) (zip hs st)))"
    using expand_rows_value_closed [of "length st" hs st z] assms(1) by simp
  have len: "length (concat (map (word_rows z) (zip hs st))) = ?m"
    by (rule length_concat_word_rows [OF assms(1,3)])
  have cell: "map ?F (word_rows z p) = ?G p" if "p \<in> set (zip hs st)" for p
  proof -
    obtain row t where p: "p = (row, t)" by (cases p)
    with that have "row \<in> set hs" by (auto dest: set_zip_leftD)
    with assms(2) have l: "length row = length st + 1" by simp
    have a: "?F row = spread_row st row" by (rule insert_zero_cols_spread [OF l])
    have "?F (map (\<lambda>_. 0) row) = spread_row st (replicate (length st + 1) 0)"
      using insert_zero_cols_spread [of "map (\<lambda>_. 0) row" st] l by (simp add: map_zero_row)
    then have b: "?F (map (\<lambda>_. 0) row) = replicate (?m + 1) 0"
      by (simp only: spread_row_zeros [OF assms(3)])
    show ?thesis unfolding p using a b by (simp add: word_rows_def)
  qed
  have rows: "map ?F (concat (map (word_rows z) (zip hs st))) = concat (map ?G (zip hs st))"
    unfolding map_concat map_map
    by (rule arg_cong [where f = concat], rule map_cong [OF refl]) (simp add: cell)
  define hs2 where "hs2 = map ?F (concat (map (word_rows z) (zip hs st)))"
  have l2: "length hs2 = ?m" by (simp add: hs2_def len)
  have r2: "hs2 = concat (map ?G (zip hs st))" by (simp only: hs2_def rows)
  have "heads_to_subtokens_value z hs st = Inr (list_insert 0 (replicate (length hs2 + 1) 0) hs2)"
    by (simp add: heads_to_subtokens_value_def e Let_def hs2_def)
  also have "\<dots> = Inr (replicate (?m + 1) 0 # hs2)"
    by (simp add: l2 list_insert_def)
  also have "\<dots> = Inr (subtoken_matrix z hs st)"
    by (simp only: r2 subtoken_matrix_def Let_def)
  finally show ?thesis .
qed

subsection \<open>The claims on \<open>apply_heads_to_subtokens\<close>\<close>

lemma apply_heads_closed:
  assumes "heap_ok s" "unaliased s"
    and "length (heads s) = length (sub_tokens s)"
    and "\<forall>row \<in> set (heads_value s). length row = length (sub_tokens s) + 1"
    and "\<forall>t \<in> set (sub_tokens s). t \<noteq> []"
  shows "\<exists>s'. apply_heads_to_subtokens z s
              = Inr (s', np_array (subtoken_matrix z (heads_value s) (sub_tokens s))) \<and>
              heads_value s' = subtoken_matrix z (heads_value s) (sub_tokens s) \<and>
              sub_tokens s' = sub_tokens s"
proof -
  have l: "length (heads_value s) = length (sub_tokens s)"
    using assms(3) by (simp add: heads_value_def)
  have v: "heads_to_subtokens_value z (heads_value s) (sub_tokens s)
           = Inr (subtoken_matrix z (heads_value s) (sub_tokens s))"
    by (rule heads_to_subtokens_value_closed [OF l assms(4,5)])
  from apply_heads_refines [OF assms(1,2), of z] v show ?thesis
    by (cases "apply_heads_to_subtokens z s") auto
qed

lemma length_spread_row:
  assumes "length row = length st + 1" "\<forall>t \<in> set st. t \<noteq> []"
  shows "length (spread_row st row) = length (concat st) + 1"
proof -
  have "length xs = length st \<Longrightarrow> \<forall>t \<in> set st. t \<noteq> [] \<Longrightarrow>
        length (concat (map (\<lambda>(x, t). x # replicate (length t - 1) (0::int)) (zip xs st)))
          = length (concat st)" for xs
  proof (induction xs st rule: list_induct2)
    case Nil
    then show ?case by simp
  next
    case (Cons x xs t st)
    then have "t \<noteq> []" by simp
    then have "Suc (length t - 1) = length t" by (cases t) simp_all
    with Cons show ?case by simp
  qed
  from this [of "tl row"] assms show ?thesis by (simp add: spread_row_def)
qed

lemma subtoken_matrix_shape:
  assumes "length hs = length st"
    and "\<forall>row \<in> set hs. length row = length st + 1"
    and "\<forall>t \<in> set st. t \<noteq> []"
  shows "length (subtoken_matrix z hs st) = length (concat st) + 1"
    and "\<forall>row \<in> set (subtoken_matrix z hs st). length row = length (concat st) + 1"
proof -
  let ?m = "length (concat st)"
  let ?G = "\<lambda>(row, t). spread_row st row #
              replicate (length t - 1) (if z then replicate (?m + 1) 0 else spread_row st row)"
  have "length xs = length ys \<Longrightarrow> \<forall>t \<in> set ys. t \<noteq> [] \<Longrightarrow>
        length (concat (map ?G (zip xs ys))) = length (concat ys)" for xs ys
  proof (induction xs ys rule: list_induct2)
    case Nil
    then show ?case by simp
  next
    case (Cons x xs t ys)
    then have "t \<noteq> []" by simp
    then have "Suc (length t - 1) = length t" by (cases t) simp_all
    with Cons show ?case by simp
  qed
  from this [OF assms(1,3)] show "length (subtoken_matrix z hs st) = ?m + 1"
    by (simp add: subtoken_matrix_def Let_def)
  show "\<forall>row \<in> set (subtoken_matrix z hs st). length row = ?m + 1"
  proof
    fix row assume "row \<in> set (subtoken_matrix z hs st)"
    then consider "row = replicate (?m + 1) 0"
      | r t where "(r, t) \<in> set (zip hs st)" "row = spread_row st r"
      by (auto simp: subtoken_matrix_def Let_def split: if_splits)
    then show "length row = ?m + 1"
    proof cases
      case 1
      then show ?thesis by simp
    next
      case 2
      then have "r \<in> set hs" by (auto dest: set_zip_leftD)
      with assms(2) have "length r = length st + 1" by simp
      from length_spread_row [OF this assms(3)] 2 show ?thesis by simp
    qed
  qed
qed

lemma np_array_matrix:
  assumes "length d = r" "0 < r" "\<forall>row \<in> set d. length row = c"
  shows "np_array d = Array2 r c d"
proof -
  from assms have "d \<noteq> []" by auto
  then have "hd d \<in> set d" by simp
  with assms have "length (hd d) = c" by simp
  with assms \<open>d \<noteq> []\<close> show ?thesis by (simp add: np_array_def)
qed

lemma fresh_heads_props:
  "heap_ok (fresh_heads m st)" "unaliased (fresh_heads m st)"
  "heads_value (fresh_heads m st) = m" "sub_tokens (fresh_heads m st) = st"
  "length (heads (fresh_heads m st)) = length m"
  by (simp_all add: fresh_heads_def heap_ok_def unaliased_def heads_value_def map_nth)

lemma example_tokens_concat: "example_tokens tokenize ws = concat (map tokenize ws)"
  by (induction ws) (simp_all add: Let_def)

text \<open>
  C1: for a word-level matrix \<open>heads\<close> with one row of length \<open>n + 1\<close> per word, its rows
  distinct objects (as \<open>binarize_multi_hot\<close> builds them), and \<open>sub_tokens\<close> with one
  non-empty subtoken list per word, \<open>apply_heads_to_subtokens\<close> returns the array of
  \<open>subtoken_matrix\<close>: the all-zero [CLS] row first, then for every word its row and, for
  each non-first subtoken, a copy of that row (a zero row when \<open>zero_sub_tokens\<close>), every
  row with a zero column inserted for each non-first subtoken.
\<close>

theorem apply_heads_to_subtokens_remaps:
  assumes "heap_ok s" "unaliased s"
    and "length (heads s) = length (sub_tokens s)"
    and "\<forall>row \<in> set (heads_value s). length row = length (sub_tokens s) + 1"
    and "\<forall>t \<in> set (sub_tokens s). t \<noteq> []"
  shows "\<exists>s'. apply_heads_to_subtokens z s
              = Inr (s', np_array (subtoken_matrix z (heads_value s) (sub_tokens s)))"
  using apply_heads_closed [OF assms] by blast

text \<open>
  C2: for \<open>n\<close> head-index lists \<open>hs\<close> and \<open>n\<close> non-empty subtoken lists whose lengths sum
  to \<open>m\<close>, \<open>apply_heads_to_subtokens(binarize_multi_hot(hs), sub_toks)\<close> returns a square
  array of shape \<open>(m + 1, m + 1)\<close>; and whenever the tokenizer splits the words into exactly
  the lists of \<open>sub_toks\<close>, the shape assertion of \<open>convert_examples_to_features\<close> passes.
\<close>

theorem binary_heads_square:
  assumes "length hs = length sub_toks" and "\<forall>t \<in> set sub_toks. t \<noteq> []"
  shows "\<exists>s' d. binary_heads hs sub_toks
                  = Inr (s', Array2 (length (concat sub_toks) + 1) (length (concat sub_toks) + 1) d) \<and>
           array_ok (Array2 (length (concat sub_toks) + 1) (length (concat sub_toks) + 1) d) \<and>
           (\<forall>tokenize words. map tokenize words = sub_toks \<longrightarrow>
              assert_heads_shape
                (Array2 (length (concat sub_toks) + 1) (length (concat sub_toks) + 1) d)
                (example_tokens tokenize words) = Inr ())"
proof -
  let ?m = "length (concat sub_toks)"
  let ?b = "binarize_multi_hot hs"
  let ?s = "fresh_heads ?b sub_toks"
  let ?d = "subtoken_matrix False ?b sub_toks"
  have lb: "length ?b = length sub_toks"
    using assms(1) by (simp add: binarize_multi_hot_def)
  have rb: "\<forall>row \<in> set ?b. length row = length sub_toks + 1"
    using assms(1) by (auto simp: binarize_multi_hot_def Let_def)
  have "\<exists>s'. apply_heads_to_subtokens False ?s = Inr (s', np_array ?d) \<and>
             heads_value s' = ?d \<and> sub_tokens s' = sub_toks"
    using apply_heads_closed [of ?s False] lb rb assms(2)
    by (simp add: fresh_heads_props)
  then obtain s' where s': "binary_heads hs sub_toks = Inr (s', np_array ?d)"
    by (auto simp: binary_heads_def)
  note sh = subtoken_matrix_shape [OF lb rb assms(2), of False]
  have arr: "np_array ?d = Array2 (?m + 1) (?m + 1) ?d"
    using sh by (intro np_array_matrix) simp_all
  have ok: "array_ok (Array2 (?m + 1) (?m + 1) ?d)"
    using sh by simp
  have "assert_heads_shape (Array2 (?m + 1) (?m + 1) ?d) (example_tokens tokenize words) = Inr ()"
    if "map tokenize words = sub_toks" for tokenize words
    using that by (simp add: assert_heads_shape_def example_tokens_concat)
  with s' arr ok show ?thesis by auto
qed

lemma insert_sub_rows_frame:
  "case insert_sub_rows z i k s of
     Inl (e, s') \<Rightarrow> sub_tokens s' = sub_tokens s \<and> length (heads s) \<le> length (heads s')
   | Inr s' \<Rightarrow> sub_tokens s' = sub_tokens s \<and> length (heads s') = length (heads s) + k"
proof (induction k arbitrary: s)
  case 0
  show ?case by simp
next
  case (Suc k)
  show ?case
  proof (cases "i < length (heads s)")
    case False
    then show ?thesis by simp
  next
    case True
    let ?v = "if z then map (\<lambda>_. 0) (rows s ! (heads s ! i)) else rows s ! (heads s ! i)"
    let ?s1 = "s\<lparr>rows := rows s @ [?v], heads := list_insert (i + 1) (length (rows s)) (heads s)\<rparr>"
    have step: "insert_sub_rows z i (Suc k) s = insert_sub_rows z i k ?s1"
      using True by (simp add: alloc_row_def Let_def)
    from Suc.IH [where s = ?s1] show ?thesis
      unfolding step by (cases "insert_sub_rows z i k ?s1") auto
  qed
qed

lemma expand_rows_frame:
  "case expand_rows z n s of
     Inl (e, s') \<Rightarrow> sub_tokens s' = sub_tokens s \<and> length (heads s) \<le> length (heads s')
   | Inr s' \<Rightarrow> sub_tokens s' = sub_tokens s \<and> length (heads s) \<le> length (heads s')"
proof (induction n arbitrary: s)
  case 0
  show ?case by simp
next
  case (Suc i)
  let ?k = "length (sub_tokens s ! i) - 1"
  show ?case
  proof (cases "insert_sub_rows z i ?k s")
    case (Inl p)
    with insert_sub_rows_frame [where z = z and i = i and k = ?k and s = s] show ?thesis
      by (simp only: expand_rows.simps sum.case)
  next
    case (Inr s1)
    with insert_sub_rows_frame [where z = z and i = i and k = ?k and s = s]
    have f: "sub_tokens s1 = sub_tokens s" "length (heads s) \<le> length (heads s1)" by simp_all
    have step: "expand_rows z (Suc i) s = expand_rows z i s1"
      by (simp only: expand_rows.simps Inr sum.case)
    from Suc.IH [where s = s1] f show ?thesis
      unfolding step by (cases "expand_rows z i s1") auto
  qed
qed

lemma apply_heads_frame:
  "case apply_heads_to_subtokens z s of
     Inl (e, s') \<Rightarrow> sub_tokens s' = sub_tokens s \<and> length (heads s) \<le> length (heads s')
   | Inr (s', a) \<Rightarrow> sub_tokens s' = sub_tokens s \<and> a = np_array (heads_value s') \<and>
                    length (heads s) < length (heads s')"
proof (cases "expand_rows z (length (sub_tokens s)) s")
  case (Inl p)
  with expand_rows_frame [where z = z and n = "length (sub_tokens s)" and s = s] show ?thesis
    by (simp add: apply_heads_to_subtokens_def)
next
  case (Inr s1)
  with expand_rows_frame [where z = z and n = "length (sub_tokens s)" and s = s]
  have f: "sub_tokens s1 = sub_tokens s" "length (heads s) \<le> length (heads s1)" by simp_all
  have "sub_tokens (insert_cls_row (expand_cols s1)) = sub_tokens s1"
    "length (heads (insert_cls_row (expand_cols s1))) = Suc (length (heads s1))"
    by (simp_all add: insert_cls_row_def expand_cols_def alloc_row_def)
  with f show ?thesis
    by (simp add: apply_heads_to_subtokens_def Inr Let_def)
qed

text \<open>
  C4, as the code has it. In every call (the model's calls: \<open>sub_tokens\<close> shares no list
  object with \<open>heads\<close>), whether it returns or raises, \<open>sub_tokens\<close> is left as it was.
  The caller's \<open>heads\<close> is not: it is changed in place, never loses a row, and on return
  holds the rows of the returned array, at least one more than before. When the rows of
  \<open>heads\<close> are distinct objects (and allocated, as the objects of a Python list are),
  the outcome (the array, or the exception) is a function of the values of the two
  arguments and the flag.
\<close>

theorem apply_heads_to_subtokens_effect:
  "(case apply_heads_to_subtokens z s of
      Inl (e, s') \<Rightarrow> sub_tokens s' = sub_tokens s \<and> length (heads s) \<le> length (heads s')
    | Inr (s', a) \<Rightarrow> sub_tokens s' = sub_tokens s \<and> a = np_array (heads_value s') \<and>
                     length (heads s) < length (heads s')) \<and>
   (heap_ok s \<and> unaliased s \<longrightarrow>
      map_sum fst snd (apply_heads_to_subtokens z s)
        = map_sum id np_array (heads_to_subtokens_value z (heads_value s) (sub_tokens s)))"
proof (intro conjI impI)
  show "case apply_heads_to_subtokens z s of
      Inl (e, s') \<Rightarrow> sub_tokens s' = sub_tokens s \<and> length (heads s) \<le> length (heads s')
    | Inr (s', a) \<Rightarrow> sub_tokens s' = sub_tokens s \<and> a = np_array (heads_value s') \<and>
                     length (heads s) < length (heads s')"
    by (rule apply_heads_frame)
next
  assume "heap_ok s \<and> unaliased s"
  then have h: "heap_ok s" "unaliased s" by simp_all
  from apply_heads_refines [OF h, of z]
  show "map_sum fst snd (apply_heads_to_subtokens z s)
        = map_sum id np_array (heads_to_subtokens_value z (heads_value s) (sub_tokens s))"
    by (cases "apply_heads_to_subtokens z s") auto
qed

theorem apply_heads_to_subtokens_effect_witness:
  "heap_ok (fresh_heads [[0, 1, 0], [1, 1, 1]] [[''a''], [''b'', ''c'']]) \<and>
   unaliased (fresh_heads [[0, 1, 0], [1, 1, 1]] [[''a''], [''b'', ''c'']]) \<and>
   (\<exists>s'. apply_heads_to_subtokens False (fresh_heads [[0, 1, 0], [1, 1, 1]] [[''a''], [''b'', ''c'']])
          = Inr (s', Array2 4 4 [[0, 0, 0, 0], [0, 1, 0, 0], [1, 1, 1, 0], [1, 1, 1, 0]]) \<and>
        sub_tokens s' = [[''a''], [''b'', ''c'']] \<and> 2 < length (heads s'))"
proof -
  let ?s = "fresh_heads [[0, 1, 0], [1, 1, 1]] [[''a''], [''b'', ''c'']]"
  let ?a = "Array2 4 4 [[0, 0, 0, 0], [0, 1, 0, 0], [1, 1, 1, 0], [1, 1, 1, 0]]"
  have h: "heap_ok ?s" "unaliased ?s" by (simp_all add: fresh_heads_props)
  have e: "map_sum id np_array
             (heads_to_subtokens_value False [[0, 1, 0], [1, 1, 1]] [[''a''], [''b'', ''c'']])
           = Inr ?a"
    by code_simp
  note t = apply_heads_to_subtokens_effect [where z = False and s = ?s]
  from t h e have "map_sum fst snd (apply_heads_to_subtokens False ?s) = Inr ?a"
    by (simp add: fresh_heads_props)
  then obtain s' where r: "apply_heads_to_subtokens False ?s = Inr (s', ?a)"
    by (cases "apply_heads_to_subtokens False ?s") auto
  with t have "sub_tokens s' = sub_tokens ?s" "length (heads ?s) < length (heads s')"
    by simp_all
  then have "sub_tokens s' = [[''a''], [''b'', ''c'']]" "2 < length (heads s')"
    by (simp_all add: fresh_heads_props)
  with h r show ?thesis by blast
qed

text \<open>
  The claim as the specification states it (the arguments are left unchanged, and the
  result depends on the argument values alone) fails. After the call on \<^verbatim>\<open>[[0, 1]]\<close> and
  \<^verbatim>\<open>[["a", "b"]]\<close> the caller's list is \<^verbatim>\<open>[[0, 0, 0], [0, 1, 0], [0, 1, 0]]\<close>. And the
  list \<^verbatim>\<open>[[0, 1, 0], [0, 1, 0]]\<close> ends as four rows of length 4 when its rows are two
  objects, but as ragged rows when they are one object twice (that row gets its zero
  column twice), so the two calls do not have the same outcome.
\<close>

theorem apply_heads_to_subtokens_mutates:
  "apply_heads_to_subtokens False (fresh_heads [[0, 1]] [[''a'', ''b'']])
     = Inr (\<lparr>rows = [[0, 1, 0], [0, 1, 0], [0, 0, 0]], heads = [2, 0, 1],
             sub_tokens = [[''a'', ''b'']]\<rparr>,
            Array2 3 3 [[0, 0, 0], [0, 1, 0], [0, 1, 0]]) \<and>
   heads_value (fresh_heads [[0, 1]] [[''a'', ''b'']]) = [[0, 1]] \<and>
   heads_value \<lparr>rows = [[0, 1, 0], [0, 1, 0], [0, 0, 0]], heads = [2, 0, 1],
                sub_tokens = [[''a'', ''b'']]\<rparr> = [[0, 0, 0], [0, 1, 0], [0, 1, 0]] \<and>
   heads_value \<lparr>rows = [[0, 1, 0]], heads = [0, 0], sub_tokens = [[''a'', ''b''], [''c'']]\<rparr>
     = heads_value \<lparr>rows = [[0, 1, 0], [0, 1, 0]], heads = [0, 1],
                    sub_tokens = [[''a'', ''b''], [''c'']]\<rparr> \<and>
   map_sum fst (\<lambda>r. heads_value (fst r)) (apply_heads_to_subtokens False
       \<lparr>rows = [[0, 1, 0]], heads = [0, 0], sub_tokens = [[''a'', ''b''], [''c'']]\<rparr>)
     = Inr [[0, 0, 0, 0], [0, 1, 0, 0, 0], [0, 1, 0, 0], [0, 1, 0, 0, 0]] \<and>
   map_sum fst (\<lambda>r. heads_value (fst r)) (apply_heads_to_subtokens False
       \<lparr>rows = [[0, 1, 0], [0, 1, 0]], heads = [0, 1], sub_tokens = [[''a'', ''b''], [''c'']]\<rparr>)
     = Inr [[0, 0, 0, 0], [0, 1, 0, 0], [0, 1, 0, 0], [0, 1, 0, 0]] \<and>
   map_sum fst snd (apply_heads_to_subtokens False
       \<lparr>rows = [[0, 1, 0]], heads = [0, 0], sub_tokens = [[''a'', ''b''], [''c'']]\<rparr>)
     \<noteq> map_sum fst snd (apply_heads_to_subtokens False
       \<lparr>rows = [[0, 1, 0], [0, 1, 0]], heads = [0, 1], sub_tokens = [[''a'', ''b''], [''c'']]\<rparr>)"
  by code_simp

theorem apply_heads_to_subtokens_remaps_witness:
  "heap_ok (fresh_heads [[0, 0, 1], [1, 1, 0]] [[''a'', ''b''], [''c'']]) \<and>
   unaliased (fresh_heads [[0, 0, 1], [1, 1, 0]] [[''a'', ''b''], [''c'']]) \<and>
   (\<exists>s'. apply_heads_to_subtokens True
            (fresh_heads [[0, 0, 1], [1, 1, 0]] [[''a'', ''b''], [''c'']])
          = Inr (s', Array2 4 4 [[0, 0, 0, 0], [0, 0, 0, 1], [0, 0, 0, 0], [1, 1, 0, 0]]))"
proof -
  let ?s = "fresh_heads [[0, 0, 1], [1, 1, 0]] [[''a'', ''b''], [''c'']]"
  have h: "heap_ok ?s" "unaliased ?s" by (simp_all add: fresh_heads_props)
  have l: "length (heads ?s) = length (sub_tokens ?s)"
    by (simp add: fresh_heads_props)
  have r: "\<forall>row \<in> set (heads_value ?s). length row = length (sub_tokens ?s) + 1"
    by (simp add: fresh_heads_props)
  have t: "\<forall>t \<in> set (sub_tokens ?s). t \<noteq> []"
    by (simp add: fresh_heads_props)
  have e: "np_array (subtoken_matrix True (heads_value ?s) (sub_tokens ?s))
           = Array2 4 4 [[0, 0, 0, 0], [0, 0, 0, 1], [0, 0, 0, 0], [1, 1, 0, 0]]"
    by code_simp
  from apply_heads_to_subtokens_remaps [OF h l r t, of True] h show ?thesis
    unfolding e by blast
qed

theorem binary_heads_square_witness:
  "length [[2], [0], []] = length [[''a'', ''b''], [''c''], [''d'', ''e'', ''f'']] \<and>
   (\<exists>s' d. binary_heads [[2], [0], []] [[''a'', ''b''], [''c''], [''d'', ''e'', ''f'']]
            = Inr (s', Array2 7 7 d) \<and>
          assert_heads_shape (Array2 7 7 d)
            (example_tokens (\<lambda>w. if w = ''ab'' then [''a'', ''b'']
                                  else if w = ''c'' then [''c''] else [''d'', ''e'', ''f''])
               [''ab'', ''c'', ''def'']) = Inr ())"
proof -
  have l: "length [[2], [0], []] = length [[''a'', ''b''], [''c''], [''d'', ''e'', ''f'']]"
    by simp
  have t: "\<forall>t \<in> set [[''a'', ''b''], [''c''], [''d'', ''e'', ''f'']]. t \<noteq> []" by simp
  have m: "map (\<lambda>w. if w = ''ab'' then [''a'', ''b'']
                      else if w = ''c'' then [''c''] else [''d'', ''e'', ''f''])
               [''ab'', ''c'', ''def''] = [[''a'', ''b''], [''c''], [''d'', ''e'', ''f'']]"
    by simp
  have c: "length (concat [[''a'', ''b''], [''c''], [''d'', ''e'', ''f'']]) + 1 = 7" by simp
  from binary_heads_square [OF l t, unfolded c] obtain s' d where
    b: "binary_heads [[2], [0], []] [[''a'', ''b''], [''c''], [''d'', ''e'', ''f'']]
          = Inr (s', Array2 7 7 d)"
    and a: "\<forall>tokenize words. map tokenize words = [[''a'', ''b''], [''c''], [''d'', ''e'', ''f'']] \<longrightarrow>
              assert_heads_shape (Array2 7 7 d) (example_tokens tokenize words) = Inr ()"
    by blast
  note a' = a [rule_format, OF m]
  from b l a' show ?thesis by blast
qed

section \<open>Padding to the attention-bias size\<close>

lemma pad_heads_entries:
  assumes "array_ok (Array2 r c d)"
  shows "\<exists>t. pad_heads (Array2 r c d) = Inr (Array2 64 64 t) \<and> length t = 64 \<and>
     (\<forall>i < 64. length (t ! i) = 64 \<and>
        (\<forall>j < 64. t ! i ! j = (if i < r \<and> j < c then d ! i ! j else 0)))"
  using assms
  by (auto simp: pad_heads_def np_zeros_def Let_def nth_append min_def)

text \<open>
  C3: for every two-dimensional array \<open>a\<close> (of any shape \<open>r\<close> by \<open>c\<close>), \<open>pad_heads a\<close>
  returns a 64 by 64 array that agrees with \<open>a\<close> at every index both have and is zero at
  every other index.
\<close>

theorem pad_heads_fixed_size:
  assumes "array_ok (Array2 r c d)"
  shows "\<exists>t. pad_heads (Array2 r c d) = Inr (Array2 64 64 t) \<and>
           array_ok (Array2 64 64 t) \<and>
           (\<forall>i < 64. \<forall>j < 64. t ! i ! j = (if i < r \<and> j < c then d ! i ! j else 0))"
proof -
  from pad_heads_entries [OF assms] obtain t where
    t: "pad_heads (Array2 r c d) = Inr (Array2 64 64 t)" "length t = 64"
       "\<forall>i < 64. length (t ! i) = 64 \<and>
          (\<forall>j < 64. t ! i ! j = (if i < r \<and> j < c then d ! i ! j else 0))"
    by blast
  have "array_ok (Array2 64 64 t)"
    using t(2,3) by (simp add: all_set_conv_all_nth)
  with t show ?thesis by blast
qed

theorem pad_heads_fixed_size_witness:
  "array_ok (Array2 2 3 [[1, 0, 1], [0, 1, 1]]) \<and>
   (\<exists>t. pad_heads (Array2 2 3 [[1, 0, 1], [0, 1, 1]]) = Inr (Array2 64 64 t) \<and>
        array_ok (Array2 64 64 t) \<and> t ! 1 ! 2 = 1 \<and> t ! 1 ! 3 = 0 \<and> t ! 2 ! 2 = 0)"
proof -
  have ok: "array_ok (Array2 2 3 [[1, 0, 1], [0, 1, 1]])" by simp
  from pad_heads_fixed_size [OF ok] obtain t where
    t: "pad_heads (Array2 2 3 [[1, 0, 1], [0, 1, 1]]) = Inr (Array2 64 64 t)"
       "array_ok (Array2 64 64 t)"
       "\<forall>i < 64. \<forall>j < 64. t ! i ! j = (if i < 2 \<and> j < 3 then [[1, 0, 1], [0, 1, 1::int]] ! i ! j else 0)"
    by blast
  from t(3) have "t ! 1 ! 2 = 1" "t ! 1 ! 3 = 0" "t ! 2 ! 2 = 0" by simp_all
  with ok t show ?thesis by blast
qed

section \<open>Sentiment labels from scores\<close>

text \<open>
  C6, as the code has it: for a row with at least two cells whose first cell parses to the
  float \<open>score\<close>, \<open>review_to_sentiment\<close> returns the label with the normalized text of the
  second cell; the label is positive exactly when \<open>score > 0\<close>, negative exactly when
  \<open>score < 0\<close>, and neutral exactly when neither holds, that is when \<open>score\<close> equals 0 or
  is NaN.
\<close>

theorem review_to_sentiment_labels:
  assumes "2 \<le> length review" and "to_float (review ! 0) = Some score"
  shows "\<exists>label. review_to_sentiment normalize_fn to_float review
                    = Inr [label, normalize_fn (review ! 1)] \<and>
           (label = ''positive'' \<longleftrightarrow> float_less (Num 0) score) \<and>
           (label = ''negative'' \<longleftrightarrow> float_less score (Num 0)) \<and>
           (label = ''neutral'' \<longleftrightarrow> float_eq score (Num 0) \<or> score = NaN)"
  using assms
  by (cases score) (auto simp: review_to_sentiment_def Let_def)

theorem review_to_sentiment_labels_witness:
  "2 \<le> length [''-1.5'', ''bad''] \<and>
   review_to_sentiment id (\<lambda>s. if s = ''-1.5'' then Some (Num (-1.5)) else None) [''-1.5'', ''bad'']
     = Inr [''negative'', ''bad'']"
  using review_to_sentiment_labels
          [of "[''-1.5'', ''bad'']" "\<lambda>s. if s = ''-1.5'' then Some (Num (-1.5)) else None"
              "Num (-1.5)" id]
  by auto

text \<open>
  The claim as the specification states it (neutral exactly when the score equals 0) fails
  on the row \<^verbatim>\<open>["nan", "ok"]\<close>: \<^verbatim>\<open>float("nan")\<close> is NaN, neither comparison holds, the
  label is neutral, and NaN does not equal 0.
\<close>

theorem review_to_sentiment_nan:
  "review_to_sentiment id (\<lambda>s. if s = ''nan'' then Some NaN else None) [''nan'', ''ok'']
     = Inr [''neutral'', ''ok''] \<and> \<not> float_eq NaN (Num 0)"
  by (simp add: review_to_sentiment_def)

section \<open>Checkpoint restore in the training script\<close>

lemma epochs_no_start:
  "Restore p \<notin> set (concat (replicate n (epoch_events d)))"
  "RunInit \<notin> set (concat (replicate n (epoch_events d)))"
  by (auto simp: epoch_events_def split: if_splits)

lemma epochs_count_train:
  "length (filter (\<lambda>e. e = RunLoopTrain) (concat (replicate n (epoch_events d)))) = n"
  by (induction n) (simp_all add: epoch_events_def)

text \<open>
  What the block does once the name \<^verbatim>\<open>model_dir\<close> is bound to a directory \<open>dir\<close>: the
  session is restored from the checkpoint \<open>p\<close> exactly when \<^verbatim>\<open>args.restore_training\<close> is
  true and the stored checkpoint of \<open>dir\<close> is \<open>p\<close>; the variables are initialised afresh
  exactly when that is not so; the one start event comes before all training, nothing but
  the directory creation comes before it, and the training loop runs once per epoch.
\<close>

lemma train_session_bound:
  assumes "utils_model_dir env = Some dir"
  shows "snd (train_session env) = None \<and>
   (\<forall>p. Restore p \<in> set (fst (train_session env)) \<longleftrightarrow>
          args_restore_training env \<and> stored_checkpoint env dir = Some p) \<and>
   (RunInit \<in> set (fst (train_session env)) \<longleftrightarrow>
          \<not> (args_restore_training env \<and> stored_checkpoint env dir \<noteq> None)) \<and>
   (\<exists>made started.
      fst (train_session env) =
        made @ [started] @ concat (replicate (nat (epoch_no env)) (epoch_events dir)) \<and>
      is_start started \<and> (\<forall>e \<in> set made. \<not> is_start e \<and> \<not> is_training e)) \<and>
   length (filter (\<lambda>e. e = RunLoopTrain) (fst (train_session env))) = nat (epoch_no env)"
proof -
  define E where "E = concat (replicate (nat (epoch_no env)) (epoch_events dir))"
  have ep: "concat (map (\<lambda>epoch. epoch_events dir) [0..<nat (epoch_no env)]) = E"
    by (simp add: E_def map_replicate_const)
  have E1: "Restore p \<notin> set E" for p
    unfolding E_def by (rule epochs_no_start)
  have E2: "RunInit \<notin> set E"
    unfolding E_def by (rule epochs_no_start)
  have E3: "length (filter (\<lambda>e. e = RunLoopTrain) E) = nat (epoch_no env)"
    unfolding E_def by (rule epochs_count_train)
  show ?thesis
    unfolding train_session_def Let_def assms option.case ep E_def [symmetric] fst_conv snd_conv
    apply (intro conjI)
    subgoal by simp
    subgoal by (auto simp: stored_checkpoint_def E1 split: option.splits)
    subgoal by (auto simp: stored_checkpoint_def E2 split: option.splits)
    subgoal by (auto simp: is_start_def is_training_def split: option.splits)
    subgoal by (auto simp: E3 split: option.splits)
    done
qed

text \<open>
  C5 fails on the script as it stands. Run with \<^verbatim>\<open>--restore_training True\<close> and a
  checkpoint stored in the model directory, with no \<^verbatim>\<open>model_dir\<close> among the names of
  \<^verbatim>\<open>utils\<close> (the script's own text binds none), the block creates \<^verbatim>\<open>trained_model\<close> and
  then raises \<^verbatim>\<open>NameError\<close> at \<^verbatim>\<open>os.path.join(model_dir)\<close>: no checkpoint is looked up,
  nothing is restored or initialised, and no epoch runs.
\<close>

theorem train_session_name_error:
  "train_session
     \<lparr>restore_training_arg = Some ''True'', utils_model_dir = None, epoch_no = 30,
      path_exists = (\<lambda>p. False),
      get_checkpoint_state = (\<lambda>d. Some ''trained_model/best_model.chk''),
      gfile_exists = (\<lambda>p. True)\<rparr>
   = ([MakeDirs ''trained_model''], Some NameError)"
  by (simp add: train_session_def)

section \<open>The grouping dictionaries of the marking loop\<close>

lemma groups_inv_iff:
  "groups_inv d \<longleftrightarrow>
     (\<forall>norm. (id2group d norm = None) = (id2rep d norm = None)) \<and>
     (\<forall>norm rep grp. id2rep d norm = Some rep \<longrightarrow> id2group d norm = Some grp \<longrightarrow> rep \<in> set grp)"
proof -
  have "(dom (id2group d) = dom (id2rep d))
          = (\<forall>norm. (id2group d norm = None) = (id2rep d norm = None))"
  proof
    assume "dom (id2group d) = dom (id2rep d)"
    then show "\<forall>norm. (id2group d norm = None) = (id2rep d norm = None)"
      by (metis domIff)
  next
    assume "\<forall>norm. (id2group d norm = None) = (id2rep d norm = None)"
    then show "dom (id2group d) = dom (id2rep d)"
      by (intro set_eqI) (metis domIff)
  qed
  then show ?thesis
    unfolding groups_inv_def by (metis option.exhaust option.inject option.distinct(1))
qed

lemma register_np_fields:
  assumes "groups_inv d" "reps_counted d"
  shows "\<exists>d'.
           register_np nz sp d = Inr d' \<and>
           np2count d' = (np2count d)(span_text sp \<mapsto>
                           (case np2count d (span_text sp) of None \<Rightarrow> 1 | Some c \<Rightarrow> c + 1)) \<and>
           (case id2group d (nz (span_text sp) (span_lemma sp)) of
              None \<Rightarrow>
                id2group d' = (id2group d)(nz (span_text sp) (span_lemma sp) \<mapsto> [span_text sp]) \<and>
                id2rep d' = (id2rep d)(nz (span_text sp) (span_lemma sp) \<mapsto> span_text sp)
            | Some grp \<Rightarrow>
                if span_text sp \<notin> set grp
                then id2group d' = (id2group d)(nz (span_text sp) (span_lemma sp) \<mapsto> grp @ [span_text sp]) \<and>
                     id2rep d' = id2rep d
                else id2group d' = id2group d \<and>
                     (id2rep d' = id2rep d \<or>
                      id2rep d' = (id2rep d)(nz (span_text sp) (span_lemma sp) \<mapsto> span_text sp)))"
proof -
  let ?np = "span_text sp"
  let ?norm = "nz ?np (span_lemma sp)"
  from assms(1) have g: "\<And>k. (id2group d k = None) = (id2rep d k = None)"
    by (simp add: groups_inv_iff)
  from assms(2) have c: "\<And>k rep. id2rep d k = Some rep \<Longrightarrow> np2count d rep \<noteq> None"
    by (auto simp: reps_counted_def)
  show ?thesis
  proof (cases "id2group d ?norm")
    case None
    with g [of ?norm] have r: "id2rep d ?norm = None" by simp
    show ?thesis
      by (simp add: register_np_def Let_def None r)
  next
    case (Some grp)
    with g [of ?norm] obtain rep where r: "id2rep d ?norm = Some rep"
      by (cases "id2rep d ?norm") auto
    from c [OF r] obtain rc where rc: "np2count d rep = Some rc" by auto
    show ?thesis
    proof (cases "?np \<in> set grp")
      case False
      then show ?thesis
        by (simp add: register_np_def Let_def Some r)
    next
      case True
      then show ?thesis
        by (simp add: register_np_def Let_def Some r rc)
    qed
  qed
qed

lemma register_np_ok:
  assumes "groups_inv d" "reps_counted d"
  shows "\<exists>d'. register_np nz sp d = Inr d' \<and> groups_inv d' \<and> reps_counted d' \<and>
              id2rep d' (nz (span_text sp) (span_lemma sp)) \<noteq> None"
proof -
  let ?np = "span_text sp"
  let ?norm = "nz ?np (span_lemma sp)"
  from assms(1) have g: "\<And>k. (id2group d k = None) = (id2rep d k = None)"
    and m: "\<And>k rep grp. id2rep d k = Some rep \<Longrightarrow> id2group d k = Some grp \<Longrightarrow> rep \<in> set grp"
    by (simp_all add: groups_inv_iff)
  from assms(2) have c: "\<And>k rep. id2rep d k = Some rep \<Longrightarrow> np2count d rep \<noteq> None"
    by (auto simp: reps_counted_def)
  from register_np_fields [OF assms, of nz sp] obtain d' where
    run: "register_np nz sp d = Inr d'"
    and cnt: "np2count d' = (np2count d)(?np \<mapsto>
                (case np2count d ?np of None \<Rightarrow> 1 | Some c \<Rightarrow> c + 1))"
    and f: "case id2group d ?norm of
              None \<Rightarrow> id2group d' = (id2group d)(?norm \<mapsto> [?np]) \<and>
                       id2rep d' = (id2rep d)(?norm \<mapsto> ?np)
            | Some grp \<Rightarrow>
                if ?np \<notin> set grp
                then id2group d' = (id2group d)(?norm \<mapsto> grp @ [?np]) \<and> id2rep d' = id2rep d
                else id2group d' = id2group d \<and>
                     (id2rep d' = id2rep d \<or> id2rep d' = (id2rep d)(?norm \<mapsto> ?np))"
    by blast
  have fields: "groups_inv d' \<and> id2rep d' ?norm \<noteq> None \<and>
                (\<forall>k rep. id2rep d' k = Some rep \<longrightarrow> rep = ?np \<or> (\<exists>k'. id2rep d k' = Some rep))"
  proof (cases "id2group d ?norm")
    case None
    with f have e: "id2group d' = (id2group d)(?norm \<mapsto> [?np])"
      "id2rep d' = (id2rep d)(?norm \<mapsto> ?np)" by simp_all
    show ?thesis
      unfolding groups_inv_iff e using g m by auto
  next
    case (Some grp)
    with g [of ?norm] obtain rep where r: "id2rep d ?norm = Some rep"
      by (cases "id2rep d ?norm") auto
    show ?thesis
    proof (cases "?np \<in> set grp")
      case False
      with f Some have e: "id2group d' = (id2group d)(?norm \<mapsto> grp @ [?np])"
        "id2rep d' = id2rep d" by simp_all
      show ?thesis
        unfolding groups_inv_iff e using g m Some r by auto
    next
      case True
      with f Some have e: "id2group d' = id2group d"
        and disj: "id2rep d' = id2rep d \<or> id2rep d' = (id2rep d)(?norm \<mapsto> ?np)" by simp_all
      from disj show ?thesis
      proof
        assume e2: "id2rep d' = id2rep d"
        show ?thesis unfolding groups_inv_iff e e2 using g m r by auto
      next
        assume e2: "id2rep d' = (id2rep d)(?norm \<mapsto> ?np)"
        show ?thesis unfolding groups_inv_iff e e2 using g m r Some True by auto
      qed
    qed
  qed
  have "reps_counted d'"
    unfolding reps_counted_def
  proof (intro allI impI)
    fix k rep assume "id2rep d' k = Some rep"
    with fields consider "rep = ?np" | k' where "id2rep d k' = Some rep" by blast
    then show "np2count d' rep \<noteq> None"
    proof cases
      case 1
      then show ?thesis by (simp add: cnt)
    next
      case 2
      from c [OF 2] show ?thesis by (simp add: cnt)
    qed
  qed
  with run fields show ?thesis by blast
qed

lemma write_span_result:
  assumes "state_ok s"
  shows "\<exists>d' rep. register_np nz sp (dicts s) = Inr d' \<and>
           groups_inv d' \<and> reps_counted d' \<and>
           id2rep d' (nz (span_text sp) (span_lemma sp)) = Some rep \<and>
           write_span nz mk sp s =
             Inr (s\<lparr>dicts := d', written := written s @ [marked_text mk rep @ '' ''],
                    spanWritten := True\<rparr>)"
proof -
  from assms have "groups_inv (dicts s)" "reps_counted (dicts s)"
    by (simp_all add: state_ok_def)
  from register_np_ok [OF this, of nz sp] obtain d' rep where
    "register_np nz sp (dicts s) = Inr d'" "groups_inv d'" "reps_counted d'"
    "id2rep d' (nz (span_text sp) (span_lemma sp)) = Some rep"
    by auto
  then show ?thesis by (simp add: write_span_def)
qed

lemma state_ok_next_span [simp]: "state_ok (next_span s) = state_ok s"
  by (simp add: next_span_def state_ok_def split: list.splits)

lemma state_ok_written [simp]: "state_ok (s\<lparr>written := w\<rparr>) = state_ok s"
  by (simp add: state_ok_def)

lemma state_ok_spans [simp]: "state_ok (s\<lparr>spans := w\<rparr>) = state_ok s"
  by (simp add: state_ok_def)

lemma token_step_ok:
  assumes "state_ok s"
  shows "\<exists>s'. token_step nz mk t s = Inr s' \<and> state_ok s'"
proof (cases "span s")
  case None
  with assms show ?thesis by (simp add: token_step_def)
next
  case (Some sp)
  from write_span_result [OF assms, of nz sp mk] obtain s1 where
    w: "write_span nz mk sp s = Inr s1" and ok1: "state_ok s1"
    by (auto simp: state_ok_def)
  show ?thesis
    using assms Some w ok1 by (simp add: token_step_def)
qed

lemma process_tokens_ok:
  "state_ok s \<Longrightarrow> \<exists>s'. process_tokens nz mk ts s = Inr s' \<and> state_ok s'"
proof (induction ts arbitrary: s)
  case Nil
  then show ?case by simp
next
  case (Cons t ts)
  from token_step_ok [OF Cons.prems, of nz mk t] obtain s1 where
    "token_step nz mk t s = Inr s1" "state_ok s1" by blast
  with Cons.IH [of s1] show ?case by simp
qed

lemma state_ok_begin_doc [simp]: "state_ok (begin_doc d s) = state_ok s"
  by (simp add: begin_doc_def)

lemma process_doc_ok:
  assumes "state_ok s"
  shows "\<exists>s'. process_doc nz mk d s = Inr s' \<and> state_ok s'"
proof -
  from process_tokens_ok [of "begin_doc d s" nz mk "tokens d"] assms obtain s1 where
    "process_tokens nz mk (tokens d) (begin_doc d s) = Inr s1" "state_ok s1" by auto
  then show ?thesis by (simp add: process_doc_def)
qed

lemma process_corpus_ok:
  "state_ok s \<Longrightarrow> \<exists>s'. process_corpus nz mk ds s = Inr s' \<and> state_ok s'"
proof (induction ds arbitrary: s)
  case Nil
  then show ?case by simp
next
  case (Cons d ds)
  from process_doc_ok [OF Cons.prems, of nz mk d] obtain s1 where
    "process_doc nz mk d s = Inr s1" "state_ok s1" by blast
  with Cons.IH [of s1] show ?case by simp
qed

lemma state_ok_init: "state_ok init_state"
  by (simp add: state_ok_def init_state_def init_dicts_def groups_inv_def reps_counted_def)

text \<open>
  C10: all through the marking loop (from the empty dictionaries, after any documents and
  any number of tokens of the next document, so after every noun-phrase span processed),
  no subscript raises, \<open>id2group\<close> and \<open>id2rep\<close> have the same key set, and for every key
  \<open>norm\<close> the representative \<open>id2rep[norm]\<close> is an element of the list \<open>id2group[norm]\<close>.
\<close>

theorem groups_invariant:
  "\<exists>s. process_corpus nz mk ds init_state = Inr s \<and> groups_inv (dicts s) \<and>
       (\<forall>d k. \<exists>s'. process_tokens nz mk (take k (tokens d)) (begin_doc d s) = Inr s' \<and>
                   groups_inv (dicts s'))"
proof -
  from process_corpus_ok [OF state_ok_init, of nz mk ds] obtain s where
    s: "process_corpus nz mk ds init_state = Inr s" "state_ok s" by blast
  have "\<exists>s'. process_tokens nz mk (take k (tokens d)) (begin_doc d s) = Inr s' \<and>
             groups_inv (dicts s')" for d k
  proof -
    from s(2) have "state_ok (begin_doc d s)" by simp
    from process_tokens_ok [OF this, of nz mk "take k (tokens d)"] show ?thesis
      unfolding state_ok_def by blast
  qed
  moreover from s(2) have "groups_inv (dicts s)" by (simp add: state_ok_def)
  ultimately show ?thesis using s(1) by blast
qed

section \<open>The marked corpus\<close>

lemma tokens_ok_tail: "tokens_ok (t # ts) \<Longrightarrow> tokens_ok ts"
  by (cases ts) simp_all

lemma tokens_ok_hd: "tokens_ok (t # ts) \<Longrightarrow> token_text t \<noteq> []"
  by (cases ts) simp_all

lemma tokens_ok_after:
  "tokens_ok (t # ts) \<Longrightarrow> u \<in> set ts \<Longrightarrow> token_idx t + length (token_text t) \<le> token_idx u"
proof (induction ts arbitrary: t)
  case Nil
  then show ?case by simp
next
  case (Cons v vs)
  show ?case
  proof (cases "u = v")
    case True
    with Cons.prems show ?thesis by simp
  next
    case False
    with Cons.prems have "u \<in> set vs" by simp
    with Cons.IH [of v] Cons.prems have "token_idx v + length (token_text v) \<le> token_idx u"
      by simp
    with Cons.prems show ?thesis by simp
  qed
qed

lemma tokens_ok_dropWhile: "tokens_ok ts \<Longrightarrow> tokens_ok (dropWhile P ts)"
  by (induction ts) (auto dest: tokens_ok_tail)

lemma tokens_ok_ordered:
  "tokens_ok ts \<Longrightarrow> a \<in> set ts \<Longrightarrow> b \<in> set ts \<Longrightarrow>
   a = b \<or> token_idx a + length (token_text a) \<le> token_idx b
         \<or> token_idx b + length (token_text b) \<le> token_idx a"
proof (induction ts)
  case Nil
  then show ?case by simp
next
  case (Cons t ts)
  then show ?case
    using tokens_ok_after [of t ts] tokens_ok_tail [of t ts] by auto
qed

lemma in_dropWhile: "t \<in> set xs \<Longrightarrow> \<not> P t \<Longrightarrow> t \<in> set (dropWhile P xs)"
  by (induction xs) auto

lemma dropWhile_all_after:
  "\<forall>u \<in> set us. \<not> P u \<Longrightarrow> dropWhile P us = us"
  by (cases us) simp_all

lemma process_tokens_no_span:
  "span s = None \<Longrightarrow>
   process_tokens nz mk ts s = Inr (s\<lparr>written := written s @ concat (map outside_text ts)\<rparr>)"
proof (induction ts arbitrary: s)
  case Nil
  then show ?case by simp
next
  case (Cons t ts)
  let ?s1 = "s\<lparr>written := written s @ outside_text t\<rparr>"
  have "token_step nz mk t s = Inr ?s1" using Cons.prems by (simp add: token_step_def)
  moreover have "span ?s1 = None" using Cons.prems by simp
  ultimately show ?case using Cons.IH [of ?s1] by simp
qed

lemma process_tokens_inside:
  assumes "tokens_ok ts" "span s = Some sp" "spanWritten s"
    and "\<forall>u \<in> set ts. start_char sp \<le> token_idx u"
    and "\<exists>t \<in> set ts. token_idx t + length (token_text t) = end_char sp"
  shows "process_tokens nz mk ts s =
         process_tokens nz mk (dropWhile (\<lambda>t. token_idx t < end_char sp) ts) (next_span s)"
  using assms
proof (induction ts)
  case Nil
  then show ?case by simp
next
  case (Cons u us)
  from Cons.prems(5) obtain t1 where
    t1: "t1 \<in> set (u # us)" "token_idx t1 + length (token_text t1) = end_char sp" by blast
  have ne: "token_text u \<noteq> []" by (rule tokens_ok_hd [OF Cons.prems(1)])
  have after: "\<And>v. v \<in> set us \<Longrightarrow> token_idx u + length (token_text u) \<le> token_idx v"
    by (rule tokens_ok_after [OF Cons.prems(1)])
  have lt: "token_idx u < end_char sp"
  proof (cases "t1 = u")
    case True
    with t1 ne show ?thesis by (cases "token_text u") auto
  next
    case False
    with t1 have "t1 \<in> set us" by simp
    from after [OF this] t1(2) ne show ?thesis by (cases "token_text u") auto
  qed
  have ge: "start_char sp \<le> token_idx u" using Cons.prems(4) by simp
  show ?case
  proof (cases "token_idx u + length (token_text u) = end_char sp")
    case True
    have step: "token_step nz mk u s = Inr (next_span s)"
      using Cons.prems(2,3) lt ge True by (simp add: token_step_def)
    have "\<forall>v \<in> set us. \<not> token_idx v < end_char sp"
      using after True by fastforce
    then have "dropWhile (\<lambda>t. token_idx t < end_char sp) us = us"
      by (rule dropWhile_all_after)
    with step lt show ?thesis by simp
  next
    case False
    have step: "token_step nz mk u s = Inr s"
      using Cons.prems(2,3) lt ge False by (simp add: token_step_def)
    from False t1 have "\<exists>t \<in> set us. token_idx t + length (token_text t) = end_char sp"
      by auto
    with Cons.IH tokens_ok_tail [OF Cons.prems(1)] Cons.prems(2,3,4)
    have "process_tokens nz mk us s =
          process_tokens nz mk (dropWhile (\<lambda>t. token_idx t < end_char sp) us) (next_span s)"
      by simp
    with step lt show ?thesis by simp
  qed
qed

lemma process_tokens_span:
  assumes "tokens_ok ts" "state_ok s" "span s = Some sp" "\<not> spanWritten s" "span_on ts sp"
  shows "\<exists>d' rep.
           register_np nz sp (dicts s) = Inr d' \<and> groups_inv d' \<and> reps_counted d' \<and>
           id2rep d' (nz (span_text sp) (span_lemma sp)) = Some rep \<and>
           process_tokens nz mk ts s =
             process_tokens nz mk (dropWhile (\<lambda>t. token_idx t < end_char sp) ts)
               (next_span
                  (s\<lparr>dicts := d',
                     written := written s @
                       concat (map outside_text (takeWhile (\<lambda>t. token_idx t < start_char sp) ts)) @
                       [marked_text mk rep @ '' ''],
                     spanWritten := True\<rparr>))"
  using assms
proof (induction ts arbitrary: s)
  case Nil
  then show ?case by (simp add: span_on_def)
next
  case (Cons u us)
  from Cons.prems(5) obtain t0 t1 where
    lt: "start_char sp < end_char sp"
    and t0: "t0 \<in> set (u # us)" "token_idx t0 = start_char sp"
    and t1: "t1 \<in> set (u # us)" "token_idx t1 + length (token_text t1) = end_char sp"
    by (auto simp: span_on_def)
  have ne: "0 < length (token_text u)" using tokens_ok_hd [OF Cons.prems(1)] by simp
  have after: "\<And>v. v \<in> set us \<Longrightarrow> token_idx u + length (token_text u) \<le> token_idx v"
    by (rule tokens_ok_after [OF Cons.prems(1)])
  have ok_us: "tokens_ok us" by (rule tokens_ok_tail [OF Cons.prems(1)])
  show ?case
  proof (cases "token_idx u < start_char sp")
    case True
    let ?s0 = "s\<lparr>written := written s @ outside_text u\<rparr>"
    have step: "token_step nz mk u s = Inr ?s0"
      using Cons.prems(3) True by (simp add: token_step_def)
    from True t0 have t0': "t0 \<in> set us" by auto
    have "t1 \<noteq> u"
    proof
      assume "t1 = u"
      with t1(2) after [OF t0'] t0(2) lt show False by simp
    qed
    with t1 have t1': "t1 \<in> set us" by simp
    have on: "span_on us sp"
      using lt t0' t0(2) t1' t1(2) by (auto simp: span_on_def)
    have "state_ok ?s0" "span ?s0 = Some sp" "\<not> spanWritten ?s0"
      using Cons.prems(2,3,4) by simp_all
    from Cons.IH [OF ok_us this on] obtain d' rep where
      r: "register_np nz sp (dicts s) = Inr d'" "groups_inv d'" "reps_counted d'"
         "id2rep d' (nz (span_text sp) (span_lemma sp)) = Some rep"
      and run: "process_tokens nz mk us ?s0 =
             process_tokens nz mk (dropWhile (\<lambda>t. token_idx t < end_char sp) us)
               (next_span
                  (?s0\<lparr>dicts := d',
                     written := written ?s0 @
                       concat (map outside_text (takeWhile (\<lambda>t. token_idx t < start_char sp) us)) @
                       [marked_text mk rep @ '' ''],
                     spanWritten := True\<rparr>))"
      by auto
    from True lt have lt_end: "token_idx u < end_char sp" by simp
    show ?thesis
      using r run step True lt_end by (intro exI [of _ d'] exI [of _ rep]) simp
  next
    case False
    have eq: "token_idx u = start_char sp"
    proof (cases "t0 = u")
      case True
      with t0 show ?thesis by simp
    next
      case neq: False
      with t0 have "t0 \<in> set us" by simp
      from after [OF this] t0(2) ne False show ?thesis by simp
    qed
    with lt have lt_end: "token_idx u < end_char sp" by simp
    from write_span_result [OF Cons.prems(2), of nz sp mk] obtain d' rep where
      r: "register_np nz sp (dicts s) = Inr d'" "groups_inv d'" "reps_counted d'"
         "id2rep d' (nz (span_text sp) (span_lemma sp)) = Some rep"
      and w: "write_span nz mk sp s =
             Inr (s\<lparr>dicts := d', written := written s @ [marked_text mk rep @ '' ''],
                    spanWritten := True\<rparr>)"
      by blast
    let ?s1 = "s\<lparr>dicts := d', written := written s @ [marked_text mk rep @ '' ''],
                 spanWritten := True\<rparr>"
    have run: "process_tokens nz mk (u # us) s =
               process_tokens nz mk (dropWhile (\<lambda>t. token_idx t < end_char sp) (u # us))
                 (next_span ?s1)"
    proof (cases "token_idx u + length (token_text u) = end_char sp")
      case True
      have step: "token_step nz mk u s = Inr (next_span ?s1)"
        using Cons.prems(3,4) eq lt_end True w by (simp add: token_step_def)
      have "\<forall>v \<in> set us. \<not> token_idx v < end_char sp"
        using after True by fastforce
      then have "dropWhile (\<lambda>t. token_idx t < end_char sp) us = us"
        by (rule dropWhile_all_after)
      with step lt_end show ?thesis by simp
    next
      case ne_end: False
      have step: "token_step nz mk u s = Inr ?s1"
        using Cons.prems(3,4) eq lt_end ne_end w by (simp add: token_step_def)
      from ne_end t1 have t1': "\<exists>t \<in> set us. token_idx t + length (token_text t) = end_char sp"
        by auto
      have ge: "\<forall>v \<in> set us. start_char sp \<le> token_idx v"
        using after eq by fastforce
      have "process_tokens nz mk us ?s1 =
            process_tokens nz mk (dropWhile (\<lambda>t. token_idx t < end_char sp) us) (next_span ?s1)"
        using Cons.prems(3) by (intro process_tokens_inside [OF ok_us _ _ ge t1']) simp_all
      with step lt_end show ?thesis by simp
    qed
    show ?thesis
      using r run False by (intro exI [of _ d'] exI [of _ rep]) simp
  qed
qed

lemma spans_ok_later:
  "spans_ok (p # ps) \<Longrightarrow> \<forall>q \<in> set ps. start_char q < end_char q \<Longrightarrow>
   \<forall>q \<in> set ps. end_char p \<le> start_char q"
proof (induction ps arbitrary: p)
  case Nil
  then show ?case by simp
next
  case (Cons q qs)
  from Cons.prems have a: "end_char p \<le> start_char q" "spans_ok (q # qs)"
    "start_char q < end_char q" "\<forall>r \<in> set qs. start_char r < end_char r"
    by simp_all
  from Cons.IH [OF a(2,4)] a(1,3) show ?case by fastforce
qed

lemma spans_ok_tail: "spans_ok (p # ps) \<Longrightarrow> spans_ok ps"
  by (cases ps) simp_all

lemma span_on_dropWhile:
  assumes "tokens_ok ts" "span_on ts q" "e \<le> start_char q"
  shows "span_on (dropWhile (\<lambda>t. token_idx t < e) ts) q"
proof -
  from assms(2) obtain t0 t1 where
    lt: "start_char q < end_char q"
    and t0: "t0 \<in> set ts" "token_idx t0 = start_char q"
    and t1: "t1 \<in> set ts" "token_idx t1 + length (token_text t1) = end_char q"
    by (auto simp: span_on_def)
  from tokens_ok_ordered [OF assms(1) t1(1) t0(1)] t0(2) t1(2) lt
  have "token_idx t0 \<le> token_idx t1" by auto
  with t0(2) assms(3) have "\<not> token_idx t1 < e" "\<not> token_idx t0 < e" by simp_all
  with t0 t1 have "t0 \<in> set (dropWhile (\<lambda>t. token_idx t < e) ts)"
    "t1 \<in> set (dropWhile (\<lambda>t. token_idx t < e) ts)"
    by (simp_all add: in_dropWhile)
  with lt t0(2) t1(2) show ?thesis unfolding span_on_def by blast
qed

lemma process_tokens_marked_line:
  assumes "tokens_ok ts" "state_ok s" "\<not> spanWritten s"
    and "case ps of [] \<Rightarrow> span s = None | p # qs \<Rightarrow> span s = Some p \<and> spans s = qs"
    and "\<forall>p \<in> set ps. span_on ts p" "spans_ok ps"
  shows "\<exists>s'. process_tokens nz mk ts s = Inr s' \<and> state_ok s' \<and>
              written s' = written s @ marked_line nz mk ps ts (dicts s)"
  using assms
proof (induction ps arbitrary: ts s)
  case Nil
  then have "span s = None" by simp
  from process_tokens_no_span [OF this, of nz mk ts] Nil.prems(2) show ?case by simp
next
  case (Cons p qs)
  from Cons.prems(4) have sp: "span s = Some p" and rest: "spans s = qs" by simp_all
  from Cons.prems(5) have on: "span_on ts p" by simp
  from process_tokens_span [OF Cons.prems(1,2) sp Cons.prems(3) on, of nz mk]
  obtain d' rep where
    r: "register_np nz p (dicts s) = Inr d'" "groups_inv d'" "reps_counted d'"
       "id2rep d' (nz (span_text p) (span_lemma p)) = Some rep"
    and run: "process_tokens nz mk ts s =
             process_tokens nz mk (dropWhile (\<lambda>t. token_idx t < end_char p) ts)
               (next_span
                  (s\<lparr>dicts := d',
                     written := written s @
                       concat (map outside_text (takeWhile (\<lambda>t. token_idx t < start_char p) ts)) @
                       [marked_text mk rep @ '' ''],
                     spanWritten := True\<rparr>))"
    by blast
  let ?ts' = "dropWhile (\<lambda>t. token_idx t < end_char p) ts"
  let ?w = "written s @
              concat (map outside_text (takeWhile (\<lambda>t. token_idx t < start_char p) ts)) @
              [marked_text mk rep @ '' '']"
  let ?s2 = "next_span (s\<lparr>dicts := d', written := ?w, spanWritten := True\<rparr>)"
  have ok': "tokens_ok ?ts'" by (rule tokens_ok_dropWhile [OF Cons.prems(1)])
  have s2: "state_ok ?s2" "\<not> spanWritten ?s2" "dicts ?s2 = d'" "written ?s2 = ?w"
    using r(2,3) by (simp_all add: state_ok_def next_span_def split: list.splits)
  have cur: "case qs of [] \<Rightarrow> span ?s2 = None | q # rs \<Rightarrow> span ?s2 = Some q \<and> spans ?s2 = rs"
    using rest by (simp add: next_span_def split: list.splits)
  have "\<forall>q \<in> set qs. start_char q < end_char q"
    using Cons.prems(5) by (simp add: span_on_def)
  with spans_ok_later [OF Cons.prems(6)] have later: "\<forall>q \<in> set qs. end_char p \<le> start_char q"
    by simp
  have on': "\<forall>q \<in> set qs. span_on ?ts' q"
    using Cons.prems(5) later by (auto intro: span_on_dropWhile [OF Cons.prems(1)])
  from Cons.IH [OF ok' s2(1,2) cur on' spans_ok_tail [OF Cons.prems(6)]]
  obtain s' where
    "process_tokens nz mk ?ts' ?s2 = Inr s'" "state_ok s'"
    "written s' = written ?s2 @ marked_line nz mk qs ?ts' (dicts ?s2)"
    by blast
  with run r s2 show ?case by simp
qed

lemma begin_doc_props:
  "\<not> spanWritten (begin_doc d s)" "dicts (begin_doc d s) = dicts s"
  "written (begin_doc d s) = written s"
  "case noun_chunks d of [] \<Rightarrow> span (begin_doc d s) = None
   | p # qs \<Rightarrow> span (begin_doc d s) = Some p \<and> spans (begin_doc d s) = qs"
  by (simp_all add: begin_doc_def next_span_def split: list.splits)

text \<open>
  C7: at any point of the corpus, for a document as spaCy gives it (\<open>doc_ok\<close>), the loop
  writes the line \<open>marked_line\<close> describes and the newline: every noun-phrase span exactly
  once, as the representative text of its group with each space replaced by the mark
  character and the mark character appended, and every token outside all spans whose
  stripped text is not empty verbatim, each followed by a space, in document order.
\<close>

theorem marked_corpus_line:
  assumes "doc_ok d"
  shows "\<exists>s s'. process_corpus nz mk ds init_state = Inr s \<and>
           process_doc nz mk d s = Inr s' \<and>
           written s' = written s @
             marked_line nz mk (noun_chunks d) (tokens d) (dicts s) @ [[CHR 0x0A]]"
proof -
  from process_corpus_ok [OF state_ok_init, of nz mk ds] obtain s where
    s: "process_corpus nz mk ds init_state = Inr s" "state_ok s" by blast
  from assms have d: "tokens_ok (tokens d)" "\<forall>p \<in> set (noun_chunks d). span_on (tokens d) p"
    "spans_ok (noun_chunks d)"
    by (simp_all add: doc_ok_def)
  have b: "state_ok (begin_doc d s)" using s(2) by simp
  from process_tokens_marked_line
         [OF d(1) b begin_doc_props(1) begin_doc_props(4) d(2,3), of nz mk]
  obtain s1 where
    "process_tokens nz mk (tokens d) (begin_doc d s) = Inr s1"
    "written s1 = written (begin_doc d s) @
        marked_line nz mk (noun_chunks d) (tokens d) (dicts (begin_doc d s))"
    by blast
  then have "process_doc nz mk d s = Inr (s1\<lparr>written := written s1 @ [[CHR 0x0A]]\<rparr>)"
    "written (s1\<lparr>written := written s1 @ [[CHR 0x0A]]\<rparr>) =
       written s @ marked_line nz mk (noun_chunks d) (tokens d) (dicts s) @ [[CHR 0x0A]]"
    by (simp_all add: process_doc_def begin_doc_props)
  with s(1) show ?thesis by blast
qed

theorem marked_corpus_line_witness:
  "doc_ok example_doc \<and>
   (\<exists>s'. process_doc (\<lambda>np lem. lem) ''_'' example_doc init_state = Inr s' \<and>
         written s' = [''The_cat_ '', ''saw '', ''The_cat_ '', ''. '', [CHR 0x0A]])"
proof -
  have ok: "doc_ok example_doc" by code_simp
  have line: "marked_line (\<lambda>np lem. lem) ''_'' (noun_chunks example_doc) (tokens example_doc)
                (dicts init_state) = [''The_cat_ '', ''saw '', ''The_cat_ '', ''. '']"
    by code_simp
  from marked_corpus_line [OF ok, of "\<lambda>np lem. lem" "''_''" "[]"] obtain s' where
    "process_doc (\<lambda>np lem. lem) ''_'' example_doc init_state = Inr s'"
    "written s' = written init_state @
       marked_line (\<lambda>np lem. lem) ''_'' (noun_chunks example_doc) (tokens example_doc)
         (dicts init_state) @ [[CHR 0x0A]]"
    by auto
  with ok line show ?thesis by (simp add: init_state_def)
qed

theorem groups_invariant_witness:
  "\<exists>s. process_corpus (\<lambda>np lem. lem) ''_'' [example_doc, example_doc] init_state = Inr s \<and>
       groups_inv (dicts s) \<and>
       id2rep (dicts s) ''cat'' = Some ''The cat'' \<and>
       id2group (dicts s) ''cat'' = Some [''The cat'', ''the cat'']"
proof -
  from groups_invariant [of "\<lambda>np lem. lem" "''_''" "[example_doc, example_doc]"] obtain s where
    s: "process_corpus (\<lambda>np lem. lem) ''_'' [example_doc, example_doc] init_state = Inr s"
       "groups_inv (dicts s)"
    by blast
  have "map_sum id (\<lambda>s. (id2rep (dicts s) ''cat'', id2group (dicts s) ''cat''))
          (process_corpus (\<lambda>np lem. lem) ''_'' [example_doc, example_doc] init_state)
        = Inr (Some ''The cat'', Some [''The cat'', ''the cat''])"
    by code_simp
  with s show ?thesis by auto
qed

end
